theory Spec2Isabelle
  imports Main "HOL-Library.AList" "HOL-Library.Multiset"
begin

section \<open>JavaScript values, errors and effects\<close>

text \<open>
  The engine is written in TypeScript over untyped provider data: raw socket frames,
  parsed JSON, adapter requests and subscription messages are all JavaScript values.
  They are modelled by one datatype; an object is an association list in insertion
  order. Numbers are integers here (the code under study only produces the literal
  \<open>-1\<close> and compares a counter with \<open>1\<close>).
\<close>

datatype jsval =
    Undefined
  | Null
  | Bool bool
  | Num int
  | Str string
  | Obj "(string \<times> jsval) list"

text \<open>A thrown value; only its \<open>message\<close> is ever read by the code.\<close>

datatype js_error = Error string

fun message_of :: "js_error \<Rightarrow> string" where
  "message_of (Error m) = m"

datatype level = Debug | Info | Warn | Err

text \<open>
  What the code does besides emitting actions: logging, writing a frame to the socket
  and writing to the cache.
\<close>

datatype effect =
    Log level string
  | Send jsval
  | CacheWrite jsval jsval

text \<open>JavaScript truthiness, as used by \<open>!x\<close>, \<open>!!x\<close> and \<open>x || y\<close>.\<close>

fun truthy :: "jsval \<Rightarrow> bool" where
  "truthy Undefined = False"
| "truthy Null = False"
| "truthy (Bool b) = b"
| "truthy (Num n) = (n \<noteq> 0)"
| "truthy (Str s) = (s \<noteq> [])"
| "truthy (Obj fs) = True"

definition js_or :: "jsval \<Rightarrow> jsval \<Rightarrow> jsval" where
  "js_or a b = (if truthy a then a else b)"

text \<open>
  Property read \<open>v.f\<close>: a TypeError on \<open>undefined\<close> and \<open>null\<close>, the stored value
  or \<open>undefined\<close> on an object, \<open>undefined\<close> on the other primitives (the one property
  read this way, \<open>data\<close>, is not defined on their wrappers).
\<close>

definition member :: "jsval \<Rightarrow> string \<Rightarrow> js_error + jsval" where
  "member v f =
     (case v of
        Undefined \<Rightarrow> Inl (Error ''Cannot read properties of undefined'')
      | Null \<Rightarrow> Inl (Error ''Cannot read properties of null'')
      | Obj fs \<Rightarrow> Inr (case map_of fs f of Some x \<Rightarrow> x | None \<Rightarrow> Undefined)
      | _ \<Rightarrow> Inr Undefined)"

text \<open>The same read where it cannot throw: \<open>undefined\<close> stands in for the TypeError.\<close>

definition field :: "jsval \<Rightarrow> string \<Rightarrow> jsval" where
  "field v f = (case member v f of Inr x \<Rightarrow> x | Inl e \<Rightarrow> Undefined)"

text \<open>
  Object spread \<open>{...v}\<close> copies the own enumerable properties of \<open>v\<close>: the fields
  of an object, the indexed characters of a string, nothing for the other primitives.
\<close>

fun digits :: "nat \<Rightarrow> string" where
  "digits n =
     (if n < 10 then [char_of (48 + n)]
      else digits (n div 10) @ [char_of (48 + n mod 10)])"

fun spread :: "jsval \<Rightarrow> (string \<times> jsval) list" where
  "spread (Obj fs) = fs"
| "spread (Str s) = map (\<lambda>i. (digits i, Str [s ! i])) [0..<length s]"
| "spread v = []"

section \<open>The socket deserializer\<close>

text \<open>
  \<^verbatim>\<open>const deserializer = (message) => {
    try { return JSON.parse(message.data) }
    catch (e) { logger.debug('WS: Message received with invalid format'); return message } }\<close>

  \<open>JSON.parse\<close> is the platform's; it is a parameter that either throws or returns a
  value. The result is a pair of the log lines written and either a thrown error or
  the returned value.
\<close>

definition deserializer ::
  "(jsval \<Rightarrow> js_error + jsval) \<Rightarrow> jsval \<Rightarrow> effect list \<times> (js_error + jsval)" where
  "deserializer JSON_parse message =
     (case (case member message ''data'' of Inl e \<Rightarrow> Inl e | Inr d \<Rightarrow> JSON_parse d) of
        Inr v \<Rightarrow> ([], Inr v)
      | Inl e \<Rightarrow> ([Log Debug ''WS: Message received with invalid format''], Inr message))"


section \<open>Actions, provider handler and state\<close>

record connection_info =
  key :: string
  url :: string

record ws_config =
  config_connectionInfo :: connection_info
  subscriptionTTL :: nat
  subscriptionUnresponsiveTTL :: nat

text \<open>
  The provider's capability set. Its callbacks are taken to return normally, except
  where the engine itself handles their exceptions: \<open>isError\<close> and
  \<open>subsFromMessage\<close> run inside the multiplex filter (an exception there errors the
  stream), and \<open>toResponse\<close> runs inside the cache writer's \<open>try\<close> block.
\<close>

record ws_handler =
  connection_url :: string
  connection_protocol :: jsval
  h_subscribe :: "jsval \<Rightarrow> jsval"
  h_unsubscribe :: "jsval \<Rightarrow> jsval"
  h_subsFromMessage :: "jsval \<Rightarrow> js_error + jsval"
  h_isError :: "jsval \<Rightarrow> js_error + bool"
  h_filter :: "jsval \<Rightarrow> bool"
  h_toResponse :: "jsval \<Rightarrow> js_error + jsval"

record ws_config_payload =
  config :: ws_config
  wsHandler :: ws_handler

record ws_subscription_payload =
  connectionInfo :: connection_info
  subscriptionMsg :: jsval
  input :: jsval

record ws_message_payload =
  message :: jsval
  subscriptionKey :: string

record ws_error_payload =
  error_connectionInfo :: connection_info
  error_message :: string

datatype action =
    Connect ws_config_payload
  | Connected ws_config_payload
  | ConnectionError ws_error_payload
  | Disconnect ws_config_payload
  | Disconnected ws_config_payload
  | Subscribe ws_subscription_payload
  | Subscribed ws_subscription_payload
  | Unsubscribe ws_subscription_payload
  | Unsubscribed ws_subscription_payload
  | MessageReceived ws_message_payload

text \<open>
  The slice \<open>state.ws\<close> of the store that the epic reads. The reducers that write it
  are not part of the sources under study; the epic only sees snapshots.
\<close>

record subscription_state =
  active :: bool
  subscription_input :: jsval

record ws_state =
  connections_active :: "string \<rightharpoonup> bool"
  connections_connecting :: "string \<rightharpoonup> int"
  subscriptions :: "string \<rightharpoonup> subscription_state"

text \<open>
  What reaches one connection's stream, in arrival order: an action dispatched to the
  store (with the latest state, as \<open>withLatestFrom(state$)\<close> pairs it), and the events
  of the connection's socket: opened, closed, a message (as the deserializer returned
  it, again with the latest state), an error, completion. Every event carries the time
  (in ms) at which it arrives.

  \<open>getSubsId\<close>, which derives the subscription key from a subscription message, is
  defined with the reducers; it is a parameter of everything that uses it. So is the
  reducer of the slice \<open>state.ws\<close>, \<open>reducer\<close>, where the engine reads the state
  again after it has emitted an action: an emitted action is dispatched at once, and
  the store reduces it before anything else runs.
\<close>

datatype event =
    Dispatched action ws_state
  | SocketOpen
  | SocketClosed
  | SocketMessage jsval ws_state
  | SocketError js_error
  | SocketComplete

type_synonym 'a stream = "(nat \<times> 'a) list"

section \<open>The connection guard\<close>



definition connectionKey_of :: "ws_config_payload \<Rightarrow> string" where
  "connectionKey_of payload = key (config_connectionInfo (config payload))"


section \<open>Multiplexed subscriptions\<close>

text \<open>
  The message filter handed to \<open>wsSubject.multiplex\<close>. An exception of a callback is
  the \<open>Inl\<close> result: \<open>multiplex\<close> turns it into an error of the logical stream.
\<close>

definition messageFilter ::
  "ws_handler \<Rightarrow> (jsval \<Rightarrow> string) \<Rightarrow> string \<Rightarrow> jsval \<Rightarrow> effect list \<times> (js_error + bool)" where
  "messageFilter h getSubsId subsKey msg =
     (case h_isError h msg of
        Inl e \<Rightarrow> ([], Inl e)
      | Inr True \<Rightarrow> ([Log Err ''WS: Subscription Error''], Inr False)
      | Inr False \<Rightarrow>
          (case h_subsFromMessage h msg of
             Inl e \<Rightarrow> ([], Inl e)
           | Inr sm \<Rightarrow> ([], Inr (getSubsId sm = subsKey))))"

definition isActiveSubscription :: "ws_state \<Rightarrow> string \<Rightarrow> bool" where
  "isActiveSubscription state subsKey =
     (case subscriptions state subsKey of Some sub \<Rightarrow> active sub | None \<Rightarrow> False)"

text \<open>The inner \<open>mergeMap\<close>: what one logical stream emits for a message it accepted.\<close>

definition on_message ::
  "ws_subscription_payload \<Rightarrow> string \<Rightarrow> jsval \<Rightarrow> ws_state \<Rightarrow> action list" where
  "on_message payload subsKey msg state =
     (if \<not> isActiveSubscription state subsKey
      then [Subscribed payload, MessageReceived \<lparr>message = msg, subscriptionKey = subsKey\<rparr>]
      else [MessageReceived \<lparr>message = msg, subscriptionKey = subsKey\<rparr>])"

text \<open>The notifier of the inner \<open>takeUntil\<close>.\<close>

definition ends_subscription :: "(jsval \<Rightarrow> string) \<Rightarrow> string \<Rightarrow> string \<Rightarrow> action \<Rightarrow> bool" where
  "ends_subscription getSubsId connectionKey subsKey a =
     (case a of
        Unsubscribe p \<Rightarrow> getSubsId (subscriptionMsg p) = subsKey
      | Disconnected p \<Rightarrow> connectionKey_of p = connectionKey
      | _ \<Rightarrow> False)"

text \<open>The handler of \<open>catchError\<close>.\<close>

definition on_error :: "ws_config_payload \<Rightarrow> js_error \<Rightarrow> action" where
  "on_error cp e =
     ConnectionError
       \<lparr>error_connectionInfo = \<lparr>key = connectionKey_of cp, url = connection_url (wsHandler cp)\<rparr>,
        error_message = message_of e\<rparr>"

text \<open>
  The state of \<open>multiplexSubscriptions$\<close>: the logical streams that are open, in the
  order they were opened, and whether the stream has ended (after \<open>catchError\<close> replaced
  it by its one \<open>connectionError\<close>).
\<close>

record mux_state =
  inner :: "ws_subscription_payload list"
  ended :: bool

definition mux_init :: mux_state where
  "mux_init = \<lparr>inner = [], ended = False\<rparr>"

text \<open>
  One socket message runs through the filter of every open logical stream, in the
  order in which the streams were opened. Each stream reads the state for itself
  (\<open>withLatestFrom(state$)\<close> is inside the logical stream): the first one reads the
  state the message arrived in, the next one the state after the store has reduced
  what the streams before it emitted. The result: the actions emitted, the log lines,
  and the error if a filter threw.
\<close>

fun deliver ::
  "ws_handler \<Rightarrow> (jsval \<Rightarrow> string) \<Rightarrow> (ws_state \<Rightarrow> action \<Rightarrow> ws_state) \<Rightarrow> jsval \<Rightarrow> ws_state \<Rightarrow>
     ws_subscription_payload list \<Rightarrow> action list \<times> effect list \<times> js_error option" where
  "deliver h getSubsId reducer msg state [] = ([], [], None)"
| "deliver h getSubsId reducer msg state (p # ps) =
     (case messageFilter h getSubsId (getSubsId (subscriptionMsg p)) msg of
        (logs, Inl e) \<Rightarrow> ([], logs, Some e)
      | (logs, Inr accepted) \<Rightarrow>
          (let outs = (if accepted
                       then on_message p (getSubsId (subscriptionMsg p)) msg state
                       else [])
           in case deliver h getSubsId reducer msg (foldl reducer state outs) ps of
                (outs', logs', err) \<Rightarrow> (outs @ outs', logs @ logs', err)))"

text \<open>
  \<open>multiplex(subMsg, unsubMsg, messageFilter)\<close> sends \<open>subMsg()\<close> when a logical
  stream is opened and \<open>unsubMsg()\<close> when it is closed. The frame reaches the socket
  while the socket is there: when a logical stream is ended by its \<open>takeUntil\<close> or
  by an exception of a filter. After an error or the completion of the socket the
  socket subject has been reset, and nothing is written.
\<close>

definition closing :: "ws_handler \<Rightarrow> ws_subscription_payload list \<Rightarrow> effect list" where
  "closing h ps = map (\<lambda>p. Send (h_unsubscribe h (input p))) ps"

text \<open>
  The end of \<open>multiplexSubscriptions$\<close> by an error: \<open>catchError\<close> logs it and
  replaces the stream by its one \<open>connectionError\<close>; the logical streams are torn
  down, which writes the frames \<open>sends\<close>.
\<close>

definition mux_fail ::
  "ws_config_payload \<Rightarrow> effect list \<Rightarrow> js_error \<Rightarrow> action list \<times> effect list \<times> mux_state" where
  "mux_fail cp sends e =
     ([on_error cp e], Log Err (message_of e) # sends, \<lparr>inner = [], ended = True\<rparr>)"

text \<open>
  One step of \<open>multiplexSubscriptions$\<close>.
  \<^item> A \<open>subscribe\<close> for this connection whose key the state does not show active opens
    a logical stream.
  \<^item> Any action on which the inner \<open>takeUntil\<close> fires ends the matching logical
    streams; \<open>endWith\<close> makes each emit \<open>unsubscribed\<close>.
  \<^item> A socket message is delivered to the open logical streams; an exception of a
    filter errors the whole stream.
  \<^item> A socket error reaches the logical streams (if there are any), errors the whole
    stream and is replaced by \<open>catchError\<close>; the stream has then ended.
  \<^item> Completion of the socket completes the logical streams, which emit \<open>unsubscribed\<close>.
\<close>

definition mux_step ::
  "(jsval \<Rightarrow> string) \<Rightarrow> (ws_state \<Rightarrow> action \<Rightarrow> ws_state) \<Rightarrow> ws_config_payload \<Rightarrow> mux_state \<Rightarrow>
     event \<Rightarrow> action list \<times> effect list \<times> mux_state" where
  "mux_step getSubsId reducer cp st ev =
     (if ended st then ([], [], st)
      else
        (case ev of
           Dispatched a state \<Rightarrow>
             (case a of
                Subscribe payload \<Rightarrow>
                  (if key (connectionInfo payload) = connectionKey_of cp \<and>
                      \<not> isActiveSubscription state (getSubsId (subscriptionMsg payload))
                   then ([], [Send (subscriptionMsg payload)], st\<lparr>inner := inner st @ [payload]\<rparr>)
                   else ([], [], st))
              | _ \<Rightarrow>
                  (map Unsubscribed
                     (filter (\<lambda>p. ends_subscription getSubsId (connectionKey_of cp)
                                     (getSubsId (subscriptionMsg p)) a) (inner st)),
                   closing (wsHandler cp)
                     (filter (\<lambda>p. ends_subscription getSubsId (connectionKey_of cp)
                                     (getSubsId (subscriptionMsg p)) a) (inner st)),
                   st\<lparr>inner :=
                        filter (\<lambda>p. \<not> ends_subscription getSubsId (connectionKey_of cp)
                                       (getSubsId (subscriptionMsg p)) a) (inner st)\<rparr>))
         | SocketMessage msg state \<Rightarrow>
             (case deliver (wsHandler cp) getSubsId reducer msg state (inner st) of
                (outs, logs, None) \<Rightarrow> (outs, logs, st)
              | (outs, logs, Some e) \<Rightarrow>
                  (case mux_fail cp (closing (wsHandler cp) (inner st)) e of
                     (outs', logs', st') \<Rightarrow> (outs @ outs', logs @ logs', st')))
         | SocketError e \<Rightarrow> (if inner st = [] then ([], [], st) else mux_fail cp [] e)
         | SocketComplete \<Rightarrow> (map Unsubscribed (inner st), [], st\<lparr>inner := []\<rparr>)
         | _ \<Rightarrow> ([], [], st)))"

text \<open>The stream of \<open>connected\<close> and \<open>disconnected\<close> events (\<open>open$\<close>, \<open>close$\<close>).\<close>

definition lifecycle :: "ws_config_payload \<Rightarrow> event \<Rightarrow> action list" where
  "lifecycle cp ev =
     (case ev of SocketOpen \<Rightarrow> [Connected cp] | SocketClosed \<Rightarrow> [Disconnected cp] | _ \<Rightarrow> [])"

text \<open>
  The actions \<open>multiplexSubscriptions$\<close> emits over a trace, stamped with their time,
  and the state it is in after the trace.
\<close>

fun mux_run ::
  "(jsval \<Rightarrow> string) \<Rightarrow> (ws_state \<Rightarrow> action \<Rightarrow> ws_state) \<Rightarrow> ws_config_payload \<Rightarrow> mux_state \<Rightarrow>
     event stream \<Rightarrow> action stream" where
  "mux_run getSubsId reducer cp st [] = []"
| "mux_run getSubsId reducer cp st ((t, ev) # rest) =
     (case mux_step getSubsId reducer cp st ev of
        (outs, logs, st') \<Rightarrow> map (Pair t) outs @ mux_run getSubsId reducer cp st' rest)"

fun mux_after ::
  "(jsval \<Rightarrow> string) \<Rightarrow> (ws_state \<Rightarrow> action \<Rightarrow> ws_state) \<Rightarrow> ws_config_payload \<Rightarrow> mux_state \<Rightarrow>
     event stream \<Rightarrow> mux_state" where
  "mux_after getSubsId reducer cp st [] = st"
| "mux_after getSubsId reducer cp st ((t, ev) # rest) =
     (case mux_step getSubsId reducer cp st ev of
        (outs, logs, st') \<Rightarrow> mux_after getSubsId reducer cp st' rest)"

section \<open>Timed streams and the operators the timers use\<close>

text \<open>
  A stream is the list of its emissions, each with its time, in emission order.
  \<open>of_at t xs\<close> is \<open>of(...xs)\<close> subscribed at time \<open>t\<close>; \<open>delay\<close> shifts every
  emission. \<open>race\<close> mirrors the stream that emits first and drops the other one; its
  first argument is fed by dispatched actions, its second by a timer. When both are due
  at the same millisecond the order is the event loop's: \<open>timer_first\<close> says which one
  the run took.
\<close>

definition of_at :: "nat \<Rightarrow> 'a list \<Rightarrow> 'a stream" where
  "of_at t xs = map (Pair t) xs"

definition delay :: "nat \<Rightarrow> 'a stream \<Rightarrow> 'a stream" where
  "delay d xs = map (\<lambda>(t, x). (t + d, x)) xs"

fun race :: "bool \<Rightarrow> 'a stream \<Rightarrow> 'a stream \<Rightarrow> 'a stream" where
  "race timer_first [] ys = ys"
| "race timer_first (x # xs) [] = x # xs"
| "race timer_first ((t, a) # xs) ((u, b) # ys) =
     (if t < u \<or> (t = u \<and> \<not> timer_first) then (t, a) # xs else (u, b) # ys)"

text \<open>\<open>merge\<close> of two streams: by time, the left one first among equal times.\<close>

fun merge2 :: "'a stream \<Rightarrow> 'a stream \<Rightarrow> 'a stream" where
  "merge2 [] ys = ys"
| "merge2 (x # xs) [] = x # xs"
| "merge2 ((t, a) # xs) ((u, b) # ys) =
     (if t \<le> u then (t, a) # merge2 xs ((u, b) # ys) else (u, b) # merge2 ((t, a) # xs) ys)"

definition is_subscribe :: "action \<Rightarrow> bool" where
  "is_subscribe a = (case a of Subscribe p \<Rightarrow> True | _ \<Rightarrow> False)"

definition is_messageReceived :: "action \<Rightarrow> bool" where
  "is_messageReceived a = (case a of MessageReceived p \<Rightarrow> True | _ \<Rightarrow> False)"

text \<open>The actions of a trace, without the state they were paired with.\<close>

definition plain :: "(action \<times> ws_state) stream \<Rightarrow> action stream" where
  "plain acts = map (\<lambda>(t, a, state). (t, a)) acts"

section \<open>The idle-unsubscribe timer\<close>

text \<open>
  \<^verbatim>\<open>mergeMap(({ payload }) => {
    const subscriptionKey = getSubsId(payload.subscriptionMsg)
    const reset$ = subscriptions$.pipe(
      filter(({ payload }) => subscriptionKey === getSubsId(payload.subscriptionMsg)), take(1))
    const timeout$ = of(unsubscribe({ ...payload })).pipe(delay(config.subscriptionTTL), ...)
    return race(reset$, timeout$).pipe(filter((a) => !subscribe.match(a))) })\<close>

  \<open>action$\<close> is hot: the race started by the action at time \<open>t\<close> sees the actions
  dispatched after it, \<open>rest\<close>. The \<open>tap\<close> on \<open>timeout$\<close> writes a log line for each
  emission and changes nothing else; it is left out, here and in the next timer.
\<close>

definition same_subscription :: "(jsval \<Rightarrow> string) \<Rightarrow> string \<Rightarrow> action \<Rightarrow> bool" where
  "same_subscription getSubsId subsKey a =
     (case a of Subscribe p \<Rightarrow> subsKey = getSubsId (subscriptionMsg p) | _ \<Rightarrow> False)"

definition idle_race ::
  "bool \<Rightarrow> ws_config \<Rightarrow> (jsval \<Rightarrow> string) \<Rightarrow> nat \<Rightarrow> ws_subscription_payload \<Rightarrow>
     (action \<times> ws_state) stream \<Rightarrow> action stream" where
  "idle_race timer_first cfg getSubsId t payload rest =
     (let subsKey = getSubsId (subscriptionMsg payload);
          reset = take 1 (filter (\<lambda>(t', a). same_subscription getSubsId subsKey a) (plain rest));
          timeout = delay (subscriptionTTL cfg) (of_at t [Unsubscribe payload])
      in filter (\<lambda>(t', a). \<not> is_subscribe a) (race timer_first reset timeout))"

fun unsubscribeOnTimeout ::
  "bool \<Rightarrow> ws_config \<Rightarrow> (jsval \<Rightarrow> string) \<Rightarrow> (action \<times> ws_state) stream \<Rightarrow> action stream" where
  "unsubscribeOnTimeout timer_first cfg getSubsId [] = []"
| "unsubscribeOnTimeout timer_first cfg getSubsId ((t, a, state) # rest) =
     (case a of
        Subscribe payload \<Rightarrow>
          merge2 (idle_race timer_first cfg getSubsId t payload rest)
            (unsubscribeOnTimeout timer_first cfg getSubsId rest)
      | _ \<Rightarrow> unsubscribeOnTimeout timer_first cfg getSubsId rest)"

section \<open>The unresponsive-channel timer\<close>

text \<open>
  \<^verbatim>\<open>mergeMap(([{ payload: { subscriptionKey } }, state]) => {
    const input = state.ws.subscriptions[subscriptionKey]?.input || {}
    const reset$ = message$.pipe(
      filter(({ payload }) => subscriptionKey === payload.subscriptionKey), take(1))
    const action = { input, subscriptionMsg: wsHandler.subscribe(input),
      connectionInfo: { key: connectionKey, url } }
    const timeout$ = of(unsubscribe(action), subscribe(action)).pipe(
      delay(config.subscriptionUnresponsiveTTL), ...)
    return race(reset$, timeout$).pipe(filter((a) => !messageReceived.match(a))) })\<close>
\<close>

definition lookup_input :: "ws_state \<Rightarrow> string \<Rightarrow> jsval" where
  "lookup_input state subsKey =
     js_or (case subscriptions state subsKey of
              Some sub \<Rightarrow> subscription_input sub
            | None \<Rightarrow> Undefined)
       (Obj [])"

definition same_channel :: "string \<Rightarrow> action \<Rightarrow> bool" where
  "same_channel subsKey a =
     (case a of MessageReceived mp \<Rightarrow> subsKey = subscriptionKey mp | _ \<Rightarrow> False)"

text \<open>The payload of the \<open>unsubscribe\<close> and \<open>subscribe\<close> actions of the recovery.\<close>

definition resubscription :: "ws_config_payload \<Rightarrow> jsval \<Rightarrow> ws_subscription_payload" where
  "resubscription cp inp =
     \<lparr>connectionInfo = \<lparr>key = connectionKey_of cp, url = connection_url (wsHandler cp)\<rparr>,
      subscriptionMsg = h_subscribe (wsHandler cp) inp,
      input = inp\<rparr>"

definition unresponsive_race ::
  "bool \<Rightarrow> ws_config_payload \<Rightarrow> nat \<Rightarrow> string \<Rightarrow> ws_state \<Rightarrow>
     (action \<times> ws_state) stream \<Rightarrow> action stream" where
  "unresponsive_race timer_first cp t subsKey state rest =
     (let inp = lookup_input state subsKey;
          reset = take 1 (filter (\<lambda>(t', a). same_channel subsKey a) (plain rest));
          act = resubscription cp inp;
          timeout = delay (subscriptionUnresponsiveTTL (config cp))
                      (of_at t [Unsubscribe act, Subscribe act])
      in filter (\<lambda>(t', a). \<not> is_messageReceived a) (race timer_first reset timeout))"

fun unsubscribeOnNoResponse ::
  "bool \<Rightarrow> ws_config_payload \<Rightarrow> (action \<times> ws_state) stream \<Rightarrow> action stream" where
  "unsubscribeOnNoResponse timer_first cp [] = []"
| "unsubscribeOnNoResponse timer_first cp ((t, a, state) # rest) =
     (case a of
        MessageReceived mp \<Rightarrow>
          merge2 (unresponsive_race timer_first cp t (subscriptionKey mp) state rest)
            (unsubscribeOnNoResponse timer_first cp rest)
      | _ \<Rightarrow> unsubscribeOnNoResponse timer_first cp rest)"

section \<open>The cache writer\<close>

text \<open>
  The cache (\<open>withCache\<close>) is outside the sources under study. It is a pair of
  parameters: whether \<open>await withCache(execute)\<close> rejects for a response, and whether
  \<open>await cache(wsResponse)\<close> rejects. Calling \<open>cache(wsResponse)\<close> is the write
  attempt, recorded as the effect \<open>CacheWrite wsResponse response\<close>.
\<close>

record cache_env =
  withCache_rejects :: "jsval \<Rightarrow> js_error option"
  cache_rejects :: "jsval \<Rightarrow> jsval \<Rightarrow> js_error option"

text \<open>
  \<^verbatim>\<open>{ ...input, data: { ...input.data, maxAge: -1 }, debug: { ws: true } }\<close>
  An object literal keeps a spread key in its place when a later entry overwrites it
  and appends a new key: \<open>AList.update\<close>.
\<close>

definition wsResponse :: "jsval \<Rightarrow> js_error + jsval" where
  "wsResponse inp =
     (case member inp ''data'' of
        Inl e \<Rightarrow> Inl e
      | Inr d \<Rightarrow>
          Inr (Obj (AList.update ''debug'' (Obj [(''ws'', Bool True)])
                 (AList.update ''data'' (Obj (AList.update ''maxAge'' (Num (- 1)) (spread d)))
                    (spread inp)))))"

definition cache_error :: "js_error \<Rightarrow> effect" where
  "cache_error e = Log Err (''WS: Cache error: '' @ message_of e)"

text \<open>
  The body of the \<open>async\<close> function under \<open>mergeMap\<close>: the effects it has and the
  outcome of its promise (\<open>Inr\<close> the action it resolves to, \<open>Inl\<close> a rejection).
\<close>

definition withCache_body ::
  "ws_handler \<Rightarrow> cache_env \<Rightarrow> action \<Rightarrow> ws_message_payload \<Rightarrow> ws_state \<Rightarrow>
     effect list \<times> (js_error + action)" where
  "withCache_body h cache a mp state =
     (let inp = lookup_input state (subscriptionKey mp);
          warned = (if \<not> truthy inp
                    then [Log Warn ''WS: Could not find subscription from incoming message'']
                    else [])
      in case h_toResponse h (message mp) of
           Inl e \<Rightarrow> (warned @ [cache_error e], Inr a)
         | Inr response \<Rightarrow>
             (if \<not> truthy response then (warned, Inr a)
              else
                (case withCache_rejects cache response of
                   Some e \<Rightarrow> (warned @ [cache_error e], Inr a)
                 | None \<Rightarrow>
                     (case wsResponse inp of
                        Inl e \<Rightarrow> (warned @ [cache_error e], Inr a)
                      | Inr req \<Rightarrow>
                          (case cache_rejects cache req response of
                             Some e \<Rightarrow> (warned @ [CacheWrite req response, cache_error e], Inr a)
                           | None \<Rightarrow> (warned @ [CacheWrite req response], Inr a))))))"

text \<open>
  What \<open>withCache$\<close> does with one event: only a dispatched \<open>messageReceived\<close> whose
  message the provider's \<open>filter\<close> accepts reaches the body.
\<close>

definition withCache_event ::
  "ws_handler \<Rightarrow> cache_env \<Rightarrow> event \<Rightarrow> effect list \<times> (js_error + action list)" where
  "withCache_event h cache ev =
     (case ev of
        Dispatched a state \<Rightarrow>
          (case a of
             MessageReceived mp \<Rightarrow>
               (if h_filter h (message mp)
                then (case withCache_body h cache a mp state of
                        (effs, Inl e) \<Rightarrow> (effs, Inl e)
                      | (effs, Inr a') \<Rightarrow> (effs, Inr (filter (\<lambda>a. False) [a'])))
                else ([], Inr []))
           | _ \<Rightarrow> ([], Inr []))
      | _ \<Rightarrow> ([], Inr []))"

text \<open>
  \<open>withCache$\<close> over a trace: all effects in order, and its emissions, or the error
  with which it would end the connection stream if a body rejected.
\<close>

fun withCache_run ::
  "ws_handler \<Rightarrow> cache_env \<Rightarrow> event stream \<Rightarrow> effect list \<times> (js_error + action stream)" where
  "withCache_run h cache [] = ([], Inr [])"
| "withCache_run h cache ((t, ev) # rest) =
     (case withCache_event h cache ev of
        (effs, Inl e) \<Rightarrow> (effs, Inl e)
      | (effs, Inr outs) \<Rightarrow>
          (case withCache_run h cache rest of
             (effs', Inl e) \<Rightarrow> (effs @ effs', Inl e)
           | (effs', Inr outs') \<Rightarrow> (effs @ effs', Inr (map (Pair t) outs @ outs'))))"


section \<open>The connection stream\<close>

text \<open>
  \<^verbatim>\<open>const ws$ = merge(open$, close$, disconnect$, multiplexSubscriptions$, unsubscribe$,
    withCache$).pipe(takeUntil(action$.pipe(filter(disconnected.match),
      filter((a) => a.payload.config.connectionInfo.key === connectionKey))))\<close>

  \<open>takeUntil\<close> subscribes to its notifier before it subscribes to the merged streams,
  and \<open>action$\<close> notifies its subscribers in subscription order. So the outer
  \<open>takeUntil\<close> sees a \<open>disconnected\<close> action before any stream inside \<open>ws$\<close> does, and
  completes \<open>ws$\<close>, which unsubscribes all of them: the streams inside only ever see the
  events before that action, and a timer that is still pending never fires.
  \<open>disconnect$\<close> and \<open>withCache$\<close> emit nothing (\<open>filter(() => false)\<close>).
\<close>

definition closes :: "string \<Rightarrow> event \<Rightarrow> bool" where
  "closes connectionKey ev =
     (case ev of
        Dispatched a state \<Rightarrow>
          (case a of Disconnected p \<Rightarrow> connectionKey_of p = connectionKey | _ \<Rightarrow> False)
      | _ \<Rightarrow> False)"

definition dispatched :: "event stream \<Rightarrow> (action \<times> ws_state) stream" where
  "dispatched trace =
     concat (map (\<lambda>(t, ev). case ev of Dispatched a state \<Rightarrow> [(t, a, state)] | _ \<Rightarrow> []) trace)"

text \<open>
  What the streams fed by the socket and by \<open>action$\<close> emit, event by event: each
  event of the trace with the actions emitted while it is handled.
\<close>

fun socket_steps ::
  "(jsval \<Rightarrow> string) \<Rightarrow> (ws_state \<Rightarrow> action \<Rightarrow> ws_state) \<Rightarrow> ws_config_payload \<Rightarrow> mux_state \<Rightarrow>
     event stream \<Rightarrow> (nat \<times> event \<times> action list) list" where
  "socket_steps getSubsId reducer cp st [] = []"
| "socket_steps getSubsId reducer cp st ((t, ev) # rest) =
     (case mux_step getSubsId reducer cp st ev of
        (outs, logs, st') \<Rightarrow>
          (t, ev, lifecycle cp ev @ outs) # socket_steps getSubsId reducer cp st' rest)"

definition emitted :: "nat \<times> event \<times> action list \<Rightarrow> action stream" where
  "emitted step = (case step of (t, ev, outs) \<Rightarrow> map (Pair t) outs)"

definition before :: "bool \<Rightarrow> nat option \<Rightarrow> 'a stream \<Rightarrow> 'a stream" where
  "before timer_first horizon xs =
     (case horizon of
        None \<Rightarrow> xs
      | Some T \<Rightarrow> filter (\<lambda>(t, x). t < T \<or> (t = T \<and> timer_first)) xs)"

text \<open>
  \<open>merge\<close> passes emissions on in the order in which they are made. An action that
  \<open>ws$\<close> emits is dispatched at once, so it comes back on \<open>action$\<close> as an event of
  the same millisecond, before anything else happens: the emission of a timer stands
  immediately before the event that brings its action back, and what the streams emit
  in reaction follows. Where the trace does not show the action coming back, a timer
  fires before the events of later milliseconds, and \<open>timer_first\<close> says whether it
  fires before or after the events of its own millisecond.
\<close>

definition echoes :: "action \<Rightarrow> event \<Rightarrow> bool" where
  "echoes a ev = (case ev of Dispatched b state \<Rightarrow> b = a | _ \<Rightarrow> False)"

fun fires_before :: "bool \<Rightarrow> nat \<times> action \<Rightarrow> (nat \<times> event \<times> action list) list \<Rightarrow> bool" where
  "fires_before timer_first (T, a) [] = True"
| "fires_before timer_first (T, a) ((t, ev, outs) # steps) =
     (T < t \<or>
      (T = t \<and>
       (echoes a ev \<or>
        (timer_first \<and> \<not> list_ex (\<lambda>(t', ev', outs'). t' = T \<and> echoes a ev') steps))))"

fun weave :: "bool \<Rightarrow> action stream \<Rightarrow> (nat \<times> event \<times> action list) list \<Rightarrow> action stream" where
  "weave timer_first [] steps = concat (map emitted steps)"
| "weave timer_first (x # pending) [] = x # pending"
| "weave timer_first (x # pending) (step # steps) =
     (if fires_before timer_first x (step # steps)
      then x # weave timer_first pending (step # steps)
      else emitted step @ weave timer_first (x # pending) steps)"

definition ws ::
  "bool \<Rightarrow> (jsval \<Rightarrow> string) \<Rightarrow> (ws_state \<Rightarrow> action \<Rightarrow> ws_state) \<Rightarrow> ws_config_payload \<Rightarrow>
     event stream \<Rightarrow> action stream" where
  "ws timer_first getSubsId reducer cp trace =
     (let seen = takeWhile (\<lambda>(t, ev). \<not> closes (connectionKey_of cp) ev) trace;
          horizon = (case dropWhile (\<lambda>(t, ev). \<not> closes (connectionKey_of cp) ev) trace of
                       [] \<Rightarrow> None
                     | (t, ev) # later \<Rightarrow> Some t);
          steps = socket_steps getSubsId reducer cp mux_init seen;
          timers = before timer_first horizon
                     (merge2 (unsubscribeOnTimeout timer_first (config cp) getSubsId (dispatched seen))
                        (unsubscribeOnNoResponse timer_first cp (dispatched seen)))
      in weave timer_first timers steps)"

section \<open>Reading traces\<close>

text \<open>
  The \<open>subscribe\<close> actions of a trace for one subscription key, the
  \<open>messageReceived\<close> actions for one key, and the \<open>unsubscribe\<close> actions for one
  key among the emissions of a stream.
\<close>

definition subscribes_for ::
  "(jsval \<Rightarrow> string) \<Rightarrow> string \<Rightarrow> (action \<times> ws_state) stream \<Rightarrow> (action \<times> ws_state) stream" where
  "subscribes_for getSubsId subsKey acts =
     filter (\<lambda>(t, a, state). same_subscription getSubsId subsKey a) acts"


definition unsubscribes_for :: "(jsval \<Rightarrow> string) \<Rightarrow> string \<Rightarrow> action stream \<Rightarrow> action stream" where
  "unsubscribes_for getSubsId subsKey outs =
     filter (\<lambda>(t, a). case a of
                        Unsubscribe p \<Rightarrow> getSubsId (subscriptionMsg p) = subsKey
                      | _ \<Rightarrow> False) outs"

text \<open>Arrival times of which each is strictly less than \<open>d\<close> after the one before.\<close>

fun closely_spaced :: "nat \<Rightarrow> nat list \<Rightarrow> bool" where
  "closely_spaced d (t # u # ts) = (u < t + d \<and> closely_spaced d (u # ts))"
| "closely_spaced d ts = True"


definition is_connectionError :: "action \<Rightarrow> bool" where
  "is_connectionError a = (case a of ConnectionError p \<Rightarrow> True | _ \<Rightarrow> False)"

section \<open>A sample provider\<close>

text \<open>
  A small provider in the style of the adapters that use the engine, for running the
  definitions on concrete traces: requests name a \<open>base\<close> asset, the provider pushes
  \<open>{ticker, price}\<close> frames, flags failures with an \<open>error\<close> field and sends
  \<open>heartbeat\<close> frames that carry no price.
\<close>

definition sample_getSubsId :: "jsval \<Rightarrow> string" where
  "sample_getSubsId v = (case field v ''ticker'' of Str s \<Rightarrow> s | _ \<Rightarrow> [])"

definition sample_handler :: ws_handler where
  "sample_handler =
     \<lparr>connection_url = ''wss://feed.example'',
      connection_protocol = Undefined,
      h_subscribe = (\<lambda>inp. Obj [(''type'', Str ''subscribe''),
                                 (''ticker'', field (field inp ''data'') ''base'')]),
      h_unsubscribe = (\<lambda>inp. Obj [(''type'', Str ''unsubscribe''),
                                   (''ticker'', field (field inp ''data'') ''base'')]),
      h_subsFromMessage = (\<lambda>m. Inr (Obj [(''type'', Str ''subscribe''),
                                          (''ticker'', field m ''ticker'')])),
      h_isError = (\<lambda>m. Inr (truthy (field m ''error''))),
      h_filter = (\<lambda>m. truthy (field m ''ticker'')),
      h_toResponse = (\<lambda>m. Inr (case field m ''price'' of
                                   Undefined \<Rightarrow> Undefined
                                 | p \<Rightarrow> Obj [(''result'', p)]))\<rparr>"

definition sample_config :: ws_config where
  "sample_config =
     \<lparr>config_connectionInfo = \<lparr>key = ''feed'', url = ''wss://feed.example''\<rparr>,
      subscriptionTTL = 100,
      subscriptionUnresponsiveTTL = 200\<rparr>"

definition sample_connection :: ws_config_payload where
  "sample_connection = \<lparr>config = sample_config, wsHandler = sample_handler\<rparr>"

definition sample_input :: jsval where
  "sample_input = Obj [(''id'', Str ''1''), (''data'', Obj [(''base'', Str ''ETH'')])]"

definition sample_subscription :: ws_subscription_payload where
  "sample_subscription =
     \<lparr>connectionInfo = \<lparr>key = ''feed'', url = ''wss://feed.example''\<rparr>,
      subscriptionMsg = Obj [(''type'', Str ''subscribe''), (''ticker'', Str ''ETH'')],
      input = sample_input\<rparr>"

definition sample_price :: jsval where
  "sample_price = Obj [(''ticker'', Str ''ETH''), (''price'', Num 100)]"


definition sample_failure :: jsval where
  "sample_failure = Obj [(''ticker'', Str ''ETH''), (''error'', Str ''unknown ticker'')]"

text \<open>
  The same provider with a stricter \<open>subsFromMessage\<close>, which throws on a frame
  without a ticker, and such a frame.
\<close>

definition strict_handler :: ws_handler where
  "strict_handler =
     sample_handler
       \<lparr>h_subsFromMessage :=
          (\<lambda>m. case field m ''ticker'' of
                 Undefined \<Rightarrow> Inl (Error ''frame without ticker'')
               | ticker \<Rightarrow> Inr (Obj [(''type'', Str ''subscribe''), (''ticker'', ticker)]))\<rparr>"

definition strict_connection :: ws_config_payload where
  "strict_connection = \<lparr>config = sample_config, wsHandler = strict_handler\<rparr>"

definition sample_garbled :: jsval where
  "sample_garbled = Obj [(''price'', Num 100)]"

text \<open>
  Snapshots of the store: while the connection is being opened (with the number of
  \<open>connect\<close> requests counted so far), connected, subscribed, and disconnected.
\<close>

definition state_connecting :: "int \<Rightarrow> ws_state" where
  "state_connecting n =
     \<lparr>connections_active = Map.empty, connections_connecting = [''feed'' \<mapsto> n],
      subscriptions = Map.empty\<rparr>"

definition state_connected :: ws_state where
  "state_connected =
     \<lparr>connections_active = [''feed'' \<mapsto> True], connections_connecting = [''feed'' \<mapsto> 0],
      subscriptions = Map.empty\<rparr>"

definition state_subscribed :: ws_state where
  "state_subscribed =
     \<lparr>connections_active = [''feed'' \<mapsto> True], connections_connecting = [''feed'' \<mapsto> 0],
      subscriptions = [''ETH'' \<mapsto> \<lparr>active = True, subscription_input = sample_input\<rparr>]\<rparr>"

definition state_disconnected :: ws_state where
  "state_disconnected =
     \<lparr>connections_active = [''feed'' \<mapsto> False], connections_connecting = [''feed'' \<mapsto> 0],
      subscriptions = [''ETH'' \<mapsto> \<lparr>active = False, subscription_input = sample_input\<rparr>]\<rparr>"

text \<open>
  A short session on one connection: a request subscribes, the socket opens, the first
  price arrives (and the actions emitted for it come back through the store), then the
  socket closes and the \<open>disconnected\<close> action is dispatched.
\<close>

definition sample_session :: "event stream" where
  "sample_session =
     [(1, Dispatched (Subscribe sample_subscription) (state_connecting 1)),
      (2, SocketOpen),
      (2, Dispatched (Connected sample_connection) state_connected),
      (3, SocketMessage sample_price state_connected),
      (3, Dispatched (Subscribed sample_subscription) state_subscribed),
      (3, Dispatched (MessageReceived \<lparr>message = sample_price, subscriptionKey = ''ETH''\<rparr>)
            state_subscribed),
      (60, SocketClosed),
      (60, Dispatched (Disconnected sample_connection) state_disconnected)]"

text \<open>
  A reducer of the subscriptions slice as the data model describes it: a subscription
  is active once \<open>subscribed\<close> is dispatched and inactive, its input retained, once
  \<open>unsubscribed\<close> is; every other action leaves the slice as it is.
\<close>

definition sample_reducer :: "ws_state \<Rightarrow> action \<Rightarrow> ws_state" where
  "sample_reducer state a =
     (case a of
        Subscribed p \<Rightarrow>
          state\<lparr>subscriptions := (subscriptions state)
            (sample_getSubsId (subscriptionMsg p) \<mapsto> \<lparr>active = True, subscription_input = input p\<rparr>)\<rparr>
      | Unsubscribed p \<Rightarrow>
          state\<lparr>subscriptions := (subscriptions state)
            (sample_getSubsId (subscriptionMsg p) \<mapsto> \<lparr>active = False, subscription_input = input p\<rparr>)\<rparr>
      | _ \<Rightarrow> state)"

definition sample_cache :: cache_env where
  "sample_cache = \<lparr>withCache_rejects = (\<lambda>response. None), cache_rejects = (\<lambda>req response. None)\<rparr>"

section \<open>Properties\<close>

subsection \<open>The deserializer\<close>

text \<open>
  C10. The deserializer never throws: it always returns a value, and whenever the
  frame's \<open>data\<close> cannot be read or \<open>JSON.parse\<close> throws on it, the exception is
  caught, one debug line is logged and the frame itself is returned.
\<close>

theorem deserializer_total:
  "(\<exists>v. snd (deserializer JSON_parse frame) = Inr v) \<and>
   ((\<forall>d. member frame ''data'' = Inr d \<longrightarrow> (\<exists>e. JSON_parse d = Inl e)) \<longrightarrow>
      deserializer JSON_parse frame =
        ([Log Debug ''WS: Message received with invalid format''], Inr frame))"
  by (auto simp: deserializer_def split: sum.splits)

theorem deserializer_total_witness:
  "member (Obj [(''data'', Str ''not json'')]) ''data'' = Inr (Str ''not json'') \<and>
   deserializer (\<lambda>d. Inl (Error ''Unexpected token'')) (Obj [(''data'', Str ''not json'')]) =
     ([Log Debug ''WS: Message received with invalid format''],
      Inr (Obj [(''data'', Str ''not json'')]))"
  using deserializer_total [of "\<lambda>d. Inl (Error ''Unexpected token'')"
      "Obj [(''data'', Str ''not json'')]"]
  by (simp add: member_def)

subsection \<open>The connection guard\<close>







subsection \<open>The multiplexer\<close>

lemma deliver_isError:
  "h_isError h msg = Inr True \<Longrightarrow>
   deliver h gs R msg state ps = ([], replicate (length ps) (Log Err ''WS: Subscription Error''), None)"
  by (induction ps) (simp_all add: messageFilter_def)

lemma deliver_throws:
  assumes "h_isError h msg = Inl e \<or> (h_isError h msg = Inr False \<and> h_subsFromMessage h msg = Inl e)"
  shows "deliver h gs R msg state ps = (if ps = [] then ([], [], None) else ([], [], Some e))"
  using assms by (cases ps) (auto simp add: messageFilter_def)

lemma deliver_step:
  assumes "messageFilter h gs (gs (subscriptionMsg p)) msg = (logs, Inr accepted)"
  shows "deliver h gs R msg state (p # ps) =
           ((if accepted then on_message p (gs (subscriptionMsg p)) msg state else []) @
              fst (deliver h gs R msg
                     (foldl R state
                        (if accepted then on_message p (gs (subscriptionMsg p)) msg state else []))
                     ps),
            logs @ fst (snd (deliver h gs R msg
                     (foldl R state
                        (if accepted then on_message p (gs (subscriptionMsg p)) msg state else []))
                     ps)),
            snd (snd (deliver h gs R msg
                     (foldl R state
                        (if accepted then on_message p (gs (subscriptionMsg p)) msg state else []))
                     ps)))"
  using assms by (simp add: Let_def case_prod_beta)

lemma deliver_Cons:
  assumes "snd (messageFilter h gs (gs (subscriptionMsg p)) msg) = Inr accepted"
  shows "fst (deliver h gs R msg state (p # ps)) =
           (if accepted then on_message p (gs (subscriptionMsg p)) msg state else []) @
           fst (deliver h gs R msg
                  (foldl R state
                     (if accepted then on_message p (gs (subscriptionMsg p)) msg state else [])) ps)"
proof -
  obtain logs where "messageFilter h gs (gs (subscriptionMsg p)) msg = (logs, Inr accepted)"
    using assms by (cases "messageFilter h gs (gs (subscriptionMsg p)) msg") simp
  from deliver_step [OF this] show ?thesis by simp
qed

lemma deliver_no_error:
  assumes "h_isError h msg = Inr False" "h_subsFromMessage h msg = Inr sm"
  shows "snd (snd (deliver h gs R msg state ps)) = None"
proof (induction ps arbitrary: state)
  case Nil
  then show ?case by simp
next
  case (Cons p ps)
  from assms have "messageFilter h gs (gs (subscriptionMsg p)) msg =
      ([], Inr (gs sm = gs (subscriptionMsg p)))"
    by (simp add: messageFilter_def)
  from deliver_step [OF this] Cons.IH show ?case by simp
qed

lemma deliver_append:
  assumes "snd (snd (deliver h gs R msg state xs)) = None"
  shows "fst (deliver h gs R msg state (xs @ ys)) =
           fst (deliver h gs R msg state xs) @
           fst (deliver h gs R msg (foldl R state (fst (deliver h gs R msg state xs))) ys)"
  using assms
proof (induction xs arbitrary: state)
  case Nil
  then show ?case by simp
next
  case (Cons q xs)
  obtain logs r where mf: "messageFilter h gs (gs (subscriptionMsg q)) msg = (logs, r)"
    by (cases "messageFilter h gs (gs (subscriptionMsg q)) msg")
  show ?case
  proof (cases r)
    case (Inl e)
    with Cons.prems mf show ?thesis by simp
  next
    case (Inr accepted)
    let ?own = "if accepted then on_message q (gs (subscriptionMsg q)) msg state else []"
    from mf Inr have mf': "messageFilter h gs (gs (subscriptionMsg q)) msg = (logs, Inr accepted)"
      by simp
    from Cons.prems deliver_step [OF mf', of R state xs]
    have "snd (snd (deliver h gs R msg (foldl R state ?own) xs)) = None"
      by simp
    from Cons.IH [OF this] deliver_step [OF mf', of R state xs]
      deliver_step [OF mf', of R state "xs @ ys"]
    show ?thesis by simp
  qed
qed

lemma deliver_subscribed:
  "Subscribed p \<in> set (fst (deliver h gs R msg state ps)) \<Longrightarrow>
   \<exists>earlier later. ps = earlier @ p # later \<and>
     snd (messageFilter h gs (gs (subscriptionMsg p)) msg) = Inr True \<and>
     \<not> isActiveSubscription (foldl R state (fst (deliver h gs R msg state earlier)))
         (gs (subscriptionMsg p))"
proof (induction ps arbitrary: state)
  case Nil
  then show ?case by simp
next
  case (Cons q ps)
  obtain logs r where mf: "messageFilter h gs (gs (subscriptionMsg q)) msg = (logs, r)"
    by (cases "messageFilter h gs (gs (subscriptionMsg q)) msg")
  show ?case
  proof (cases r)
    case (Inl e)
    with Cons.prems mf show ?thesis by simp
  next
    case (Inr accepted)
    let ?own = "if accepted then on_message q (gs (subscriptionMsg q)) msg state else []"
    from mf Inr have acc: "snd (messageFilter h gs (gs (subscriptionMsg q)) msg) = Inr accepted"
      by simp
    from Cons.prems deliver_Cons [OF acc, of R state ps]
    have "Subscribed p \<in> set ?own \<or>
          Subscribed p \<in> set (fst (deliver h gs R msg (foldl R state ?own) ps))"
      by auto
    then show ?thesis
    proof
      assume "Subscribed p \<in> set ?own"
      then have "accepted" "p = q" "\<not> isActiveSubscription state (gs (subscriptionMsg q))"
        by (auto simp: on_message_def split: if_splits)
      with acc have "q # ps = [] @ p # ps \<and>
          snd (messageFilter h gs (gs (subscriptionMsg p)) msg) = Inr True \<and>
          \<not> isActiveSubscription (foldl R state (fst (deliver h gs R msg state [])))
              (gs (subscriptionMsg p))"
        by simp
      then show ?thesis by blast
    next
      assume "Subscribed p \<in> set (fst (deliver h gs R msg (foldl R state ?own) ps))"
      from Cons.IH [OF this] obtain earlier later where
        e: "ps = earlier @ p # later"
           "snd (messageFilter h gs (gs (subscriptionMsg p)) msg) = Inr True"
           "\<not> isActiveSubscription
                (foldl R (foldl R state ?own) (fst (deliver h gs R msg (foldl R state ?own) earlier)))
                (gs (subscriptionMsg p))"
        by blast
      from deliver_Cons [OF acc, of R state earlier]
      have "foldl R state (fst (deliver h gs R msg state (q # earlier))) =
            foldl R (foldl R state ?own) (fst (deliver h gs R msg (foldl R state ?own) earlier))"
        by simp
      with e have "q # ps = (q # earlier) @ p # later \<and>
          snd (messageFilter h gs (gs (subscriptionMsg p)) msg) = Inr True \<and>
          \<not> isActiveSubscription (foldl R state (fst (deliver h gs R msg state (q # earlier))))
              (gs (subscriptionMsg p))"
        by simp
      then show ?thesis by blast
    qed
  qed
qed

lemma mux_step_subscribed:
  assumes "Subscribed p \<in> set (fst (mux_step gs R cp st ev))"
  shows "\<exists>msg state earlier later. ev = SocketMessage msg state \<and> inner st = earlier @ p # later \<and>
           snd (messageFilter (wsHandler cp) gs (gs (subscriptionMsg p)) msg) = Inr True \<and>
           \<not> isActiveSubscription
               (foldl R state (fst (deliver (wsHandler cp) gs R msg state earlier)))
               (gs (subscriptionMsg p))"
proof (cases ev)
  case (Dispatched a state)
  with assms show ?thesis
    by (cases a) (auto simp: mux_step_def split: if_splits)
next
  case (SocketMessage msg state)
  obtain outs logs err where d: "deliver (wsHandler cp) gs R msg state (inner st) = (outs, logs, err)"
    by (cases "deliver (wsHandler cp) gs R msg state (inner st)")
  from assms SocketMessage d have "Subscribed p \<in> set outs"
    by (cases err) (auto simp: mux_step_def mux_fail_def on_error_def split: if_splits)
  with d deliver_subscribed [of p "wsHandler cp" gs R msg state "inner st"] SocketMessage
  show ?thesis by simp
next
  case (SocketError e)
  with assms show ?thesis
    by (auto simp: mux_step_def mux_fail_def on_error_def split: if_splits)
qed (use assms in \<open>auto simp: mux_step_def split: if_splits\<close>)

lemma deliver_no_connectionError:
  "\<not> (\<exists>a \<in> set (fst (deliver h gs R msg state ps)). is_connectionError a)"
proof (induction ps arbitrary: state)
  case Nil
  then show ?case by simp
next
  case (Cons q ps)
  obtain logs r where mf: "messageFilter h gs (gs (subscriptionMsg q)) msg = (logs, r)"
    by (cases "messageFilter h gs (gs (subscriptionMsg q)) msg")
  show ?case
  proof (cases r)
    case (Inl e)
    with mf show ?thesis by simp
  next
    case (Inr accepted)
    with mf have acc: "snd (messageFilter h gs (gs (subscriptionMsg q)) msg) = Inr accepted"
      by simp
    show ?thesis
      unfolding deliver_Cons [OF acc]
      using Cons.IH by (auto simp: on_message_def is_connectionError_def)
  qed
qed

lemma mux_run_ended: "ended st \<Longrightarrow> mux_run gs R cp st trace = []"
  by (induction trace) (auto simp: mux_step_def)

lemma mux_after_ended: "ended st \<Longrightarrow> mux_after gs R cp st trace = st"
  by (induction trace) (auto simp: mux_step_def)

lemma mux_step_failing:
  assumes "\<not> ended st" "mux_step gs R cp st ev = (outs, logs, st')" "ended st'"
  shows "\<exists>pre e. outs = pre @ [on_error cp e] \<and> \<not> (\<exists>a \<in> set pre. is_connectionError a) \<and>
           st' = \<lparr>inner = [], ended = True\<rparr>"
proof (cases ev)
  case (Dispatched a state)
  with assms show ?thesis
    by (cases a) (auto simp: mux_step_def split: if_splits)
next
  case (SocketMessage msg state)
  obtain outs0 logs0 err where d: "deliver (wsHandler cp) gs R msg state (inner st) = (outs0, logs0, err)"
    by (cases "deliver (wsHandler cp) gs R msg state (inner st)")
  from deliver_no_connectionError [of "wsHandler cp" gs R msg state "inner st"] d
  have clean: "\<not> (\<exists>a \<in> set outs0. is_connectionError a)" by simp
  show ?thesis
  proof (cases err)
    case None
    with assms SocketMessage d show ?thesis by (simp add: mux_step_def)
  next
    case (Some e)
    with assms SocketMessage d have "outs = outs0 @ [on_error cp e]" "st' = \<lparr>inner = [], ended = True\<rparr>"
      by (auto simp: mux_step_def mux_fail_def)
    with clean show ?thesis by blast
  qed
next
  case (SocketError e)
  with assms have "outs = [] @ [on_error cp e]" "st' = \<lparr>inner = [], ended = True\<rparr>"
    by (auto simp: mux_step_def mux_fail_def split: if_splits)
  then show ?thesis by (metis empty_iff list.set(1))
qed (use assms in \<open>auto simp: mux_step_def split: if_splits\<close>)

lemma mux_step_continuing:
  assumes "mux_step gs R cp st ev = (outs, logs, st')" "\<not> ended st'"
  shows "\<not> (\<exists>a \<in> set outs. is_connectionError a) \<and> \<not> ended st"
proof (cases ev)
  case (Dispatched a state)
  with assms show ?thesis
    by (cases a) (auto simp: mux_step_def is_connectionError_def split: if_splits)
next
  case (SocketMessage msg state)
  obtain outs0 logs0 err where d: "deliver (wsHandler cp) gs R msg state (inner st) = (outs0, logs0, err)"
    by (cases "deliver (wsHandler cp) gs R msg state (inner st)")
  from deliver_no_connectionError [of "wsHandler cp" gs R msg state "inner st"] d
  have clean: "\<not> (\<exists>a \<in> set outs0. is_connectionError a)" by simp
  show ?thesis
  proof (cases err)
    case None
    with assms SocketMessage d clean show ?thesis by (auto simp: mux_step_def split: if_splits)
  next
    case (Some e)
    with assms SocketMessage d show ?thesis by (auto simp: mux_step_def mux_fail_def split: if_splits)
  qed
next
  case (SocketError e)
  with assms show ?thesis
    by (auto simp: mux_step_def mux_fail_def split: if_splits)
qed (use assms in \<open>auto simp: mux_step_def is_connectionError_def split: if_splits\<close>)

lemma mux_run_append:
  "mux_run gs R cp st (xs @ ys) = mux_run gs R cp st xs @ mux_run gs R cp (mux_after gs R cp st xs) ys"
  by (induction xs arbitrary: st) (auto split: prod.splits)

lemma mux_after_append:
  "mux_after gs R cp st (xs @ ys) = mux_after gs R cp (mux_after gs R cp st xs) ys"
  by (induction xs arbitrary: st) (auto split: prod.splits)

lemma mux_run_clean:
  "\<not> ended (mux_after gs R cp st trace) \<Longrightarrow>
   \<not> (\<exists>x \<in> set (mux_run gs R cp st trace). is_connectionError (snd x))"
proof (induction trace arbitrary: st)
  case Nil
  then show ?case by simp
next
  case (Cons x trace)
  obtain t ev where x: "x = (t, ev)" by (cases x)
  obtain outs logs st' where s: "mux_step gs R cp st ev = (outs, logs, st')"
    by (cases "mux_step gs R cp st ev")
  from Cons.prems x s have after: "\<not> ended (mux_after gs R cp st' trace)" by simp
  then have "\<not> ended st'" using mux_after_ended [of st' gs R cp trace] by auto
  from mux_step_continuing [OF s this] Cons.IH [OF after] x s show ?case by auto
qed

lemma cacheWrite_only_for_messageReceived:
  assumes "eff \<in> set (fst (withCache_event h cache ev))"
  shows "\<exists>mp state. ev = Dispatched (MessageReceived mp) state"
proof (cases ev)
  case (Dispatched a state)
  with assms show ?thesis by (cases a) (simp_all add: withCache_event_def)
qed (use assms in \<open>simp_all add: withCache_event_def\<close>)

text \<open>
  C5. A socket message for which the provider's \<open>isError\<close> returns true is rejected
  by the filter of every logical stream, whatever its key: the multiplexer emits no
  action for it (no \<open>subscribed\<close>, no \<open>messageReceived\<close>) and keeps its state. The
  cache writer does nothing on the socket message itself; it only ever acts on a
  dispatched \<open>messageReceived\<close>, and none was emitted.
\<close>

theorem error_message_rejected:
  assumes "h_isError (wsHandler cp) msg = Inr True"
  shows "snd (messageFilter (wsHandler cp) getSubsId subsKey msg) = Inr False \<and>
         fst (mux_step getSubsId reducer cp st (SocketMessage msg state)) = [] \<and>
         snd (snd (mux_step getSubsId reducer cp st (SocketMessage msg state))) = st \<and>
         fst (withCache_event (wsHandler cp) cache (SocketMessage msg state)) = [] \<and>
         (\<forall>ev eff. eff \<in> set (fst (withCache_event (wsHandler cp) cache ev)) \<longrightarrow>
            (\<exists>mp state'. ev = Dispatched (MessageReceived mp) state'))"
proof -
  have "snd (messageFilter (wsHandler cp) getSubsId subsKey msg) = Inr False"
    using assms by (simp add: messageFilter_def)
  moreover have "mux_step getSubsId reducer cp st (SocketMessage msg state) =
      ([], if ended st then [] else replicate (length (inner st)) (Log Err ''WS: Subscription Error''), st)"
    using assms by (simp add: mux_step_def deliver_isError)
  moreover have "fst (withCache_event (wsHandler cp) cache (SocketMessage msg state)) = []"
    by (simp add: withCache_event_def)
  ultimately show ?thesis
    using cacheWrite_only_for_messageReceived by auto
qed

theorem error_message_rejected_witness:
  "h_isError (wsHandler sample_connection) sample_failure = Inr True \<and>
   mux_step sample_getSubsId sample_reducer sample_connection
      \<lparr>inner = [sample_subscription], ended = False\<rparr>
      (SocketMessage sample_failure state_connected) =
     ([], [Log Err ''WS: Subscription Error''], \<lparr>inner = [sample_subscription], ended = False\<rparr>)"
proof -
  have h: "h_isError (wsHandler sample_connection) sample_failure = Inr True"
    by (simp add: sample_connection_def sample_handler_def sample_failure_def field_def member_def)
  have "mux_step sample_getSubsId sample_reducer sample_connection
      \<lparr>inner = [sample_subscription], ended = False\<rparr>
      (SocketMessage sample_failure state_connected) =
     ([], [Log Err ''WS: Subscription Error''], \<lparr>inner = [sample_subscription], ended = False\<rparr>)"
    using h by (simp add: mux_step_def messageFilter_def)
  with h error_message_rejected [OF h, of sample_getSubsId "''ETH''" sample_reducer
      "\<lparr>inner = [sample_subscription], ended = False\<rparr>" state_connected sample_cache]
  show ?thesis by simp
qed

lemma deliver_other_keys:
  assumes "h_isError h msg = Inr False" "h_subsFromMessage h msg = Inr sm"
    and "\<forall>q \<in> set ps. gs sm \<noteq> gs (subscriptionMsg q)"
  shows "fst (deliver h gs R msg state ps) = []"
  using assms(3)
proof (induction ps)
  case Nil
  then show ?case by simp
next
  case (Cons q ps)
  from assms(1,2) Cons.prems have "messageFilter h gs (gs (subscriptionMsg q)) msg = ([], Inr False)"
    by (simp add: messageFilter_def)
  from deliver_step [OF this, of R state ps] Cons show ?case by simp
qed

text \<open>
  C9. Each open logical stream reads the state for itself, once the actions that the
  streams opened before it emit for the message have gone through the store. For a
  message that is not an error, a logical stream whose key is the message's key emits
  \<open>subscribed\<close> immediately followed by \<open>messageReceived\<close> when the state it reads
  does not show its subscription active, and \<open>messageReceived\<close> alone when it does;
  what the streams before it emit comes first and what the streams after it emit
  follows. When no stream before it has the key, the state it reads is the state at
  the arrival of the message. \<open>subscribed\<close> is emitted on no other occasion: only
  for a socket message that the filter of an open logical stream accepts while the
  state that stream reads shows the subscription inactive.
\<close>

theorem subscribed_on_first_message:
  "(\<not> ended st \<and> h_isError (wsHandler cp) msg = Inr False \<and>
    h_subsFromMessage (wsHandler cp) msg = Inr sm \<and>
    inner st = earlier @ p # later \<and> gs sm = gs (subscriptionMsg p) \<longrightarrow>
      (let seen = fst (deliver (wsHandler cp) gs R msg state earlier);
           now = foldl R state seen;
           own = (if isActiveSubscription now (gs (subscriptionMsg p))
                  then [MessageReceived \<lparr>message = msg, subscriptionKey = gs (subscriptionMsg p)\<rparr>]
                  else [Subscribed p,
                        MessageReceived \<lparr>message = msg, subscriptionKey = gs (subscriptionMsg p)\<rparr>])
       in fst (mux_step gs R cp st (SocketMessage msg state)) =
            seen @ own @ fst (deliver (wsHandler cp) gs R msg (foldl R now own) later) \<and>
          ((\<forall>q \<in> set earlier. gs sm \<noteq> gs (subscriptionMsg q)) \<longrightarrow> seen = [] \<and> now = state))) \<and>
   (Subscribed p \<in> set (fst (mux_step gs R cp st ev)) \<longrightarrow>
      (\<exists>msg' state' earlier' later'.
         ev = SocketMessage msg' state' \<and> inner st = earlier' @ p # later' \<and>
         snd (messageFilter (wsHandler cp) gs (gs (subscriptionMsg p)) msg') = Inr True \<and>
         \<not> isActiveSubscription
             (foldl R state' (fst (deliver (wsHandler cp) gs R msg' state' earlier')))
             (gs (subscriptionMsg p))))"
proof (intro conjI impI)
  assume a: "\<not> ended st \<and> h_isError (wsHandler cp) msg = Inr False \<and>
    h_subsFromMessage (wsHandler cp) msg = Inr sm \<and>
    inner st = earlier @ p # later \<and> gs sm = gs (subscriptionMsg p)"
  let ?h = "wsHandler cp"
  let ?seen = "fst (deliver ?h gs R msg state earlier)"
  let ?now = "foldl R state ?seen"
  let ?own = "if isActiveSubscription ?now (gs (subscriptionMsg p))
                  then [MessageReceived \<lparr>message = msg, subscriptionKey = gs (subscriptionMsg p)\<rparr>]
                  else [Subscribed p,
                        MessageReceived \<lparr>message = msg, subscriptionKey = gs (subscriptionMsg p)\<rparr>]"
  from a have ok: "h_isError ?h msg = Inr False" "h_subsFromMessage ?h msg = Inr sm" by simp_all
  have noerr: "snd (snd (deliver ?h gs R msg s ps)) = None" for s ps
    by (rule deliver_no_error [OF ok])
  from ok a have mf: "messageFilter ?h gs (gs (subscriptionMsg p)) msg = ([], Inr True)"
    by (simp add: messageFilter_def)
  have own: "on_message p (gs (subscriptionMsg p)) msg ?now = ?own"
    by (simp add: on_message_def)
  have "fst (deliver ?h gs R msg state (earlier @ p # later)) =
          ?seen @ fst (deliver ?h gs R msg ?now (p # later))"
    by (rule deliver_append [OF noerr])
  also have "fst (deliver ?h gs R msg ?now (p # later)) =
          ?own @ fst (deliver ?h gs R msg (foldl R ?now ?own) later)"
    using deliver_step [OF mf, of R ?now later] own by simp
  finally have d: "fst (deliver ?h gs R msg state (inner st)) =
          ?seen @ ?own @ fst (deliver ?h gs R msg (foldl R ?now ?own) later)"
    using a by simp
  have "fst (mux_step gs R cp st (SocketMessage msg state)) =
          fst (deliver ?h gs R msg state (inner st))"
    using a noerr [of state "inner st"]
    by (cases "deliver ?h gs R msg state (inner st)") (simp add: mux_step_def)
  with d have 1: "fst (mux_step gs R cp st (SocketMessage msg state)) =
          ?seen @ ?own @ fst (deliver ?h gs R msg (foldl R ?now ?own) later)"
    by simp
  have 2: "(\<forall>q \<in> set earlier. gs sm \<noteq> gs (subscriptionMsg q)) \<longrightarrow> ?seen = [] \<and> ?now = state"
    using deliver_other_keys [OF ok, of earlier gs R state] by simp
  from 1 2 show "let seen = ?seen; now = foldl R state seen; own = (if isActiveSubscription now (gs (subscriptionMsg p))
                  then [MessageReceived \<lparr>message = msg, subscriptionKey = gs (subscriptionMsg p)\<rparr>]
                  else [Subscribed p,
                        MessageReceived \<lparr>message = msg, subscriptionKey = gs (subscriptionMsg p)\<rparr>])
       in fst (mux_step gs R cp st (SocketMessage msg state)) =
            seen @ own @ fst (deliver (wsHandler cp) gs R msg (foldl R now own) later) \<and>
          ((\<forall>q \<in> set earlier. gs sm \<noteq> gs (subscriptionMsg q)) \<longrightarrow> seen = [] \<and> now = state)"
    by (simp only: Let_def)
next
  assume "Subscribed p \<in> set (fst (mux_step gs R cp st ev))"
  then show "\<exists>msg' state' earlier' later'.
         ev = SocketMessage msg' state' \<and> inner st = earlier' @ p # later' \<and>
         snd (messageFilter (wsHandler cp) gs (gs (subscriptionMsg p)) msg') = Inr True \<and>
         \<not> isActiveSubscription
             (foldl R state' (fst (deliver (wsHandler cp) gs R msg' state' earlier')))
             (gs (subscriptionMsg p))"
    by (rule mux_step_subscribed)
qed


theorem subscribed_on_first_message_witness:
  "h_isError (wsHandler sample_connection) sample_price = Inr False \<and>
   sample_getSubsId (subscriptionMsg sample_subscription) = ''ETH'' \<and>
   fst (mux_step sample_getSubsId sample_reducer sample_connection
          \<lparr>inner = [sample_subscription], ended = False\<rparr>
          (SocketMessage sample_price state_connected)) =
     [Subscribed sample_subscription,
      MessageReceived \<lparr>message = sample_price, subscriptionKey = ''ETH''\<rparr>] \<and>
   fst (mux_step sample_getSubsId sample_reducer sample_connection
          \<lparr>inner = [sample_subscription], ended = False\<rparr>
          (SocketMessage sample_price state_subscribed)) =
     [MessageReceived \<lparr>message = sample_price, subscriptionKey = ''ETH''\<rparr>] \<and>
   fst (mux_step sample_getSubsId sample_reducer sample_connection
          \<lparr>inner = [sample_subscription, sample_subscription], ended = False\<rparr>
          (SocketMessage sample_price state_connected)) =
     [Subscribed sample_subscription,
      MessageReceived \<lparr>message = sample_price, subscriptionKey = ''ETH''\<rparr>,
      MessageReceived \<lparr>message = sample_price, subscriptionKey = ''ETH''\<rparr>]"
proof -
  let ?h = "wsHandler sample_connection"
  let ?mr = "MessageReceived \<lparr>message = sample_price, subscriptionKey = ''ETH''\<rparr>"
  let ?sm = "Obj [(''type'', Str ''subscribe''), (''ticker'', Str ''ETH'')]"
  have e: "h_isError ?h sample_price = Inr False"
    by (simp add: sample_connection_def sample_handler_def sample_price_def field_def member_def)
  have f: "h_subsFromMessage ?h sample_price = Inr ?sm"
    by (simp add: sample_connection_def sample_handler_def sample_price_def field_def member_def)
  have k: "sample_getSubsId (subscriptionMsg sample_subscription) = ''ETH''"
    by (simp add: sample_getSubsId_def sample_subscription_def field_def member_def)
  have k': "sample_getSubsId ?sm = ''ETH''"
    by (simp add: sample_getSubsId_def field_def member_def)
  have a0: "\<not> isActiveSubscription state_connected ''ETH''"
    by (simp add: isActiveSubscription_def state_connected_def)
  have a1: "isActiveSubscription state_subscribed ''ETH''"
    by (simp add: isActiveSubscription_def state_subscribed_def)
  have a2: "isActiveSubscription
      (foldl sample_reducer state_connected [Subscribed sample_subscription, ?mr]) ''ETH''"
    by (simp add: isActiveSubscription_def sample_reducer_def k)
  have mf: "messageFilter ?h sample_getSubsId ''ETH'' sample_price = ([], Inr True)"
    by (simp add: messageFilter_def e f k')
  have d1: "fst (deliver ?h sample_getSubsId sample_reducer sample_price state_connected
                   [sample_subscription]) = [Subscribed sample_subscription, ?mr]"
    by (simp add: k mf on_message_def a0)
  have one: "fst (mux_step sample_getSubsId sample_reducer sample_connection
          \<lparr>inner = [sample_subscription], ended = False\<rparr>
          (SocketMessage sample_price state_connected)) = [Subscribed sample_subscription, ?mr]"
    using subscribed_on_first_message [of "\<lparr>inner = [sample_subscription], ended = False\<rparr>"
        sample_connection sample_price ?sm "[]" sample_subscription "[]" sample_getSubsId
        sample_reducer state_connected] e f k k' a0
    by (simp add: Let_def)
  have again: "fst (mux_step sample_getSubsId sample_reducer sample_connection
          \<lparr>inner = [sample_subscription], ended = False\<rparr>
          (SocketMessage sample_price state_subscribed)) = [?mr]"
    using subscribed_on_first_message [of "\<lparr>inner = [sample_subscription], ended = False\<rparr>"
        sample_connection sample_price ?sm "[]" sample_subscription "[]" sample_getSubsId
        sample_reducer state_subscribed] e f k k' a1
    by (simp add: Let_def)
  have two: "fst (mux_step sample_getSubsId sample_reducer sample_connection
          \<lparr>inner = [sample_subscription, sample_subscription], ended = False\<rparr>
          (SocketMessage sample_price state_connected)) =
          [Subscribed sample_subscription, ?mr, ?mr]"
    using subscribed_on_first_message [of
        "\<lparr>inner = [sample_subscription, sample_subscription], ended = False\<rparr>"
        sample_connection sample_price ?sm "[sample_subscription]" sample_subscription "[]"
        sample_getSubsId sample_reducer state_connected] e f k k' d1 a2
    by (simp add: Let_def)
  from e k one again two show ?thesis by blast
qed

lemma deliver_error_cases:
  "snd (snd (deliver h gs R msg state ps)) = Some e \<Longrightarrow>
   ps \<noteq> [] \<and> (h_isError h msg = Inl e \<or>
                (h_isError h msg = Inr False \<and> h_subsFromMessage h msg = Inl e))"
proof (induction ps arbitrary: state)
  case Nil
  then show ?case by simp
next
  case (Cons q ps)
  obtain logs r where mf: "messageFilter h gs (gs (subscriptionMsg q)) msg = (logs, r)"
    by (cases "messageFilter h gs (gs (subscriptionMsg q)) msg")
  show ?case
  proof (cases r)
    case (Inl e')
    with Cons.prems mf have "e' = e" by simp
    with mf Inl show ?thesis
      by (auto simp: messageFilter_def split: sum.splits bool.splits)
  next
    case (Inr accepted)
    with mf have mf': "messageFilter h gs (gs (subscriptionMsg q)) msg = (logs, Inr accepted)"
      by simp
    from Cons.prems deliver_step [OF mf', of R state ps] Cons.IH show ?thesis by auto
  qed
qed

lemma error_step:
  assumes "\<not> ended st" "inner st \<noteq> []"
    and "ev = SocketError e \<or>
         (\<exists>msg state. ev = SocketMessage msg state \<and>
            (h_isError (wsHandler cp) msg = Inl e \<or>
             (h_isError (wsHandler cp) msg = Inr False \<and>
              h_subsFromMessage (wsHandler cp) msg = Inl e)))"
  shows "fst (mux_step gs R cp st ev) = [on_error cp e] \<and>
         snd (snd (mux_step gs R cp st ev)) = \<lparr>inner = [], ended = True\<rparr>"
  using assms(3)
proof (elim disjE exE)
  assume "ev = SocketError e"
  with assms(1,2) show ?thesis by (simp add: mux_step_def mux_fail_def)
next
  fix msg state
  assume b: "ev = SocketMessage msg state \<and>
            (h_isError (wsHandler cp) msg = Inl e \<or>
             (h_isError (wsHandler cp) msg = Inr False \<and>
              h_subsFromMessage (wsHandler cp) msg = Inl e))"
  then have ev: "ev = SocketMessage msg state"
    and t: "h_isError (wsHandler cp) msg = Inl e \<or>
             (h_isError (wsHandler cp) msg = Inr False \<and>
              h_subsFromMessage (wsHandler cp) msg = Inl e)"
    by simp_all
  from deliver_throws [OF t, of gs R state "inner st"] assms(1,2) ev
  show ?thesis by (simp add: mux_step_def mux_fail_def)
qed

lemma ending_step:
  assumes "\<not> ended st" "ended (snd (snd (mux_step gs R cp st ev)))"
  shows "inner st \<noteq> [] \<and>
         (\<exists>e. ev = SocketError e \<or>
           (\<exists>msg state. ev = SocketMessage msg state \<and>
              (h_isError (wsHandler cp) msg = Inl e \<or>
               (h_isError (wsHandler cp) msg = Inr False \<and>
                h_subsFromMessage (wsHandler cp) msg = Inl e))))"
proof (cases ev)
  case (Dispatched a state)
  with assms show ?thesis
    by (cases a) (auto simp: mux_step_def split: if_splits)
next
  case (SocketMessage msg state)
  obtain outs logs err where d: "deliver (wsHandler cp) gs R msg state (inner st) = (outs, logs, err)"
    by (cases "deliver (wsHandler cp) gs R msg state (inner st)")
  show ?thesis
  proof (cases err)
    case None
    with assms SocketMessage d show ?thesis by (simp add: mux_step_def)
  next
    case (Some e)
    with d have "snd (snd (deliver (wsHandler cp) gs R msg state (inner st))) = Some e" by simp
    from deliver_error_cases [OF this] SocketMessage show ?thesis by blast
  qed
next
  case (SocketError e)
  with assms show ?thesis by (auto simp: mux_step_def mux_fail_def split: if_splits)
qed (use assms in \<open>auto simp: mux_step_def split: if_splits\<close>)

text \<open>
  C8. An error that ends the multiplexed stream (a socket error while a logical
  stream is open, or an exception of the message filter) does not escape. Over any
  trace the stream emits what it emitted before the error, no \<open>connectionError\<close>
  among it, then one \<open>connectionError\<close> carrying the connection key, the url and
  the error's message, and nothing after it, whatever follows. The stream is then
  over: no event makes it emit, write to the socket or open a logical stream again.
  Nothing but such an error ends the stream.
\<close>

theorem multiplex_error_caught:
  "(\<not> ended (mux_after gs R cp st pre) \<and> inner (mux_after gs R cp st pre) \<noteq> [] \<and>
    (ev = SocketError (Error m) \<or>
     (\<exists>msg state. ev = SocketMessage msg state \<and>
        (h_isError (wsHandler cp) msg = Inl (Error m) \<or>
         (h_isError (wsHandler cp) msg = Inr False \<and>
          h_subsFromMessage (wsHandler cp) msg = Inl (Error m))))) \<longrightarrow>
      mux_run gs R cp st (pre @ (t, ev) # post) =
        mux_run gs R cp st pre @
        [(t, ConnectionError
               \<lparr>error_connectionInfo =
                  \<lparr>key = key (config_connectionInfo (config cp)),
                   url = connection_url (wsHandler cp)\<rparr>,
                error_message = m\<rparr>)] \<and>
      \<not> (\<exists>x \<in> set (mux_run gs R cp st pre). is_connectionError (snd x)) \<and>
      mux_after gs R cp st (pre @ (t, ev) # post) = \<lparr>inner = [], ended = True\<rparr>) \<and>
   (\<not> ended st \<and> ended (snd (snd (mux_step gs R cp st ev))) \<longrightarrow>
      inner st \<noteq> [] \<and>
      (\<exists>m'. ev = SocketError (Error m') \<or>
         (\<exists>msg state. ev = SocketMessage msg state \<and>
            (h_isError (wsHandler cp) msg = Inl (Error m') \<or>
             (h_isError (wsHandler cp) msg = Inr False \<and>
              h_subsFromMessage (wsHandler cp) msg = Inl (Error m')))))) \<and>
   (ended st \<longrightarrow> mux_step gs R cp st ev = ([], [], st))"
proof (intro conjI impI)
  assume a: "\<not> ended (mux_after gs R cp st pre) \<and> inner (mux_after gs R cp st pre) \<noteq> [] \<and>
    (ev = SocketError (Error m) \<or>
     (\<exists>msg state. ev = SocketMessage msg state \<and>
        (h_isError (wsHandler cp) msg = Inl (Error m) \<or>
         (h_isError (wsHandler cp) msg = Inr False \<and>
          h_subsFromMessage (wsHandler cp) msg = Inl (Error m)))))"
  let ?st = "mux_after gs R cp st pre"
  from a have 1: "\<not> ended ?st" and 2: "inner ?st \<noteq> []" by simp_all
  from a have 3: "ev = SocketError (Error m) \<or>
     (\<exists>msg state. ev = SocketMessage msg state \<and>
        (h_isError (wsHandler cp) msg = Inl (Error m) \<or>
         (h_isError (wsHandler cp) msg = Inr False \<and>
          h_subsFromMessage (wsHandler cp) msg = Inl (Error m))))"
    by blast
  from error_step [OF 1 2 3, of gs R]
  have s: "fst (mux_step gs R cp ?st ev) = [on_error cp (Error m)]"
    "snd (snd (mux_step gs R cp ?st ev)) = \<lparr>inner = [], ended = True\<rparr>"
    by simp_all
  have e: "ended \<lparr>inner = [], ended = True\<rparr>" by simp
  from s have run: "mux_run gs R cp ?st ((t, ev) # post) = [(t, on_error cp (Error m))]"
    by (cases "mux_step gs R cp ?st ev") (simp add: mux_run_ended [OF e])
  from s have after: "mux_after gs R cp ?st ((t, ev) # post) = \<lparr>inner = [], ended = True\<rparr>"
    by (cases "mux_step gs R cp ?st ev") (simp add: mux_after_ended [OF e])
  from run show "mux_run gs R cp st (pre @ (t, ev) # post) =
        mux_run gs R cp st pre @
        [(t, ConnectionError
               \<lparr>error_connectionInfo =
                  \<lparr>key = key (config_connectionInfo (config cp)),
                   url = connection_url (wsHandler cp)\<rparr>,
                error_message = m\<rparr>)]"
    by (simp add: mux_run_append on_error_def connectionKey_of_def)
  from 1 show "\<not> (\<exists>x \<in> set (mux_run gs R cp st pre). is_connectionError (snd x))"
    by (rule mux_run_clean)
  from after show "mux_after gs R cp st (pre @ (t, ev) # post) = \<lparr>inner = [], ended = True\<rparr>"
    by (simp add: mux_after_append)
next
  assume a: "\<not> ended st \<and> ended (snd (snd (mux_step gs R cp st ev)))"
  then have 1: "\<not> ended st" and 2: "ended (snd (snd (mux_step gs R cp st ev)))" by simp_all
  from ending_step [OF 1 2] show "inner st \<noteq> []" by simp
  from ending_step [OF 1 2] obtain e where
    "ev = SocketError e \<or>
           (\<exists>msg state. ev = SocketMessage msg state \<and>
              (h_isError (wsHandler cp) msg = Inl e \<or>
               (h_isError (wsHandler cp) msg = Inr False \<and>
                h_subsFromMessage (wsHandler cp) msg = Inl e)))"
    by blast
  then show "\<exists>m'. ev = SocketError (Error m') \<or>
         (\<exists>msg state. ev = SocketMessage msg state \<and>
            (h_isError (wsHandler cp) msg = Inl (Error m') \<or>
             (h_isError (wsHandler cp) msg = Inr False \<and>
              h_subsFromMessage (wsHandler cp) msg = Inl (Error m'))))"
    by (cases e) blast
next
  assume "ended st"
  then show "mux_step gs R cp st ev = ([], [], st)" by (simp add: mux_step_def)
qed

theorem multiplex_error_caught_witness:
  "mux_after sample_getSubsId sample_reducer sample_connection mux_init
      [(1, Dispatched (Subscribe sample_subscription) (state_connecting 1))] =
     \<lparr>inner = [sample_subscription], ended = False\<rparr> \<and>
   mux_run sample_getSubsId sample_reducer sample_connection mux_init
      [(1, Dispatched (Subscribe sample_subscription) (state_connecting 1)),
       (5, SocketError (Error ''socket hang up'')),
       (7, Dispatched (Subscribe sample_subscription) (state_connecting 1)),
       (9, SocketMessage sample_price state_connected)] =
     [(5, ConnectionError
            \<lparr>error_connectionInfo = \<lparr>key = ''feed'', url = ''wss://feed.example''\<rparr>,
             error_message = ''socket hang up''\<rparr>)] \<and>
   h_isError (wsHandler strict_connection) sample_garbled = Inr False \<and>
   h_subsFromMessage (wsHandler strict_connection) sample_garbled =
     Inl (Error ''frame without ticker'') \<and>
   mux_run sample_getSubsId sample_reducer strict_connection mux_init
      [(1, Dispatched (Subscribe sample_subscription) (state_connecting 1)),
       (5, SocketMessage sample_garbled state_connected),
       (9, SocketMessage sample_price state_connected)] =
     [(5, ConnectionError
            \<lparr>error_connectionInfo = \<lparr>key = ''feed'', url = ''wss://feed.example''\<rparr>,
             error_message = ''frame without ticker''\<rparr>)]"
proof -
  let ?sub = "(1 :: nat, Dispatched (Subscribe sample_subscription) (state_connecting 1))"
  have k: "sample_getSubsId (subscriptionMsg sample_subscription) = ''ETH''"
    by (simp add: sample_getSubsId_def sample_subscription_def field_def member_def)
  have c: "key (connectionInfo sample_subscription) = ''feed''"
    by (simp add: sample_subscription_def)
  have ck: "connectionKey_of sample_connection = ''feed''" "connectionKey_of strict_connection = ''feed''"
    by (simp_all add: connectionKey_of_def sample_connection_def strict_connection_def
        sample_config_def)
  have u: "key (config_connectionInfo (config sample_connection)) = ''feed''"
    "key (config_connectionInfo (config strict_connection)) = ''feed''"
    "connection_url (wsHandler sample_connection) = ''wss://feed.example''"
    "connection_url (wsHandler strict_connection) = ''wss://feed.example''"
    by (simp_all add: sample_connection_def strict_connection_def sample_config_def
        sample_handler_def strict_handler_def)
  have a: "\<not> isActiveSubscription (state_connecting 1) ''ETH''"
    by (simp add: isActiveSubscription_def state_connecting_def)
  have after: "mux_after sample_getSubsId sample_reducer cp mux_init [?sub] =
      \<lparr>inner = [sample_subscription], ended = False\<rparr>"
    "mux_run sample_getSubsId sample_reducer cp mux_init [?sub] = []"
    if "connectionKey_of cp = ''feed''" for cp
    using that by (simp_all add: mux_step_def mux_init_def k c a)
  have e: "h_isError (wsHandler strict_connection) sample_garbled = Inr False"
    by (simp add: strict_connection_def strict_handler_def sample_handler_def sample_garbled_def
        field_def member_def)
  have f: "h_subsFromMessage (wsHandler strict_connection) sample_garbled =
      Inl (Error ''frame without ticker'')"
    by (simp add: strict_connection_def strict_handler_def sample_garbled_def field_def member_def)
  have one: "mux_run sample_getSubsId sample_reducer sample_connection mux_init
      ([?sub] @ (5, SocketError (Error ''socket hang up'')) #
        [(7, Dispatched (Subscribe sample_subscription) (state_connecting 1)),
         (9, SocketMessage sample_price state_connected)]) =
     [(5, ConnectionError
            \<lparr>error_connectionInfo = \<lparr>key = ''feed'', url = ''wss://feed.example''\<rparr>,
             error_message = ''socket hang up''\<rparr>)]"
    using multiplex_error_caught [of sample_getSubsId sample_reducer sample_connection mux_init
        "[?sub]" "SocketError (Error ''socket hang up'')" "''socket hang up''" 5
        "[(7, Dispatched (Subscribe sample_subscription) (state_connecting 1)),
          (9, SocketMessage sample_price state_connected)]"]
      after [OF ck(1)] u
    by simp
  have two: "mux_run sample_getSubsId sample_reducer strict_connection mux_init
      ([?sub] @ (5, SocketMessage sample_garbled state_connected) #
        [(9, SocketMessage sample_price state_connected)]) =
     [(5, ConnectionError
            \<lparr>error_connectionInfo = \<lparr>key = ''feed'', url = ''wss://feed.example''\<rparr>,
             error_message = ''frame without ticker''\<rparr>)]"
    using multiplex_error_caught [of sample_getSubsId sample_reducer strict_connection mux_init
        "[?sub]" "SocketMessage sample_garbled state_connected" "''frame without ticker''" 5
        "[(9, SocketMessage sample_price state_connected)]"]
      after [OF ck(2)] u e f
    by simp
  from after(1) [OF ck(1)] one two e f show ?thesis by simp
qed

subsection \<open>The timers\<close>

lemma mset_merge2: "mset (merge2 xs ys) = mset xs + mset ys"
  by (induction xs ys rule: merge2.induct) simp_all

lemma plain_filter:
  "filter (\<lambda>(t', a). same_subscription gs k a) (plain rest) = plain (subscribes_for gs k rest)"
  by (induction rest) (auto simp: plain_def subscribes_for_def)

lemma idle_race_cases:
  "idle_race tf cfg gs t p rest =
     (case subscribes_for gs (gs (subscriptionMsg p)) rest of
        [] \<Rightarrow> [(t + subscriptionTTL cfg, Unsubscribe p)]
      | (t', a, s) # later \<Rightarrow>
          if t' < t + subscriptionTTL cfg \<or> (t' = t + subscriptionTTL cfg \<and> \<not> tf) then []
          else [(t + subscriptionTTL cfg, Unsubscribe p)])"
proof (cases "subscribes_for gs (gs (subscriptionMsg p)) rest")
  case Nil
  show ?thesis
    unfolding idle_race_def Let_def plain_filter Nil
    by (simp add: plain_def of_at_def delay_def is_subscribe_def)
next
  case (Cons x later)
  obtain t' a s where x: "x = (t', a, s)" by (cases x)
  have "x \<in> set (subscribes_for gs (gs (subscriptionMsg p)) rest)" using Cons by simp
  then have "same_subscription gs (gs (subscriptionMsg p)) a"
    using x by (auto simp: subscribes_for_def)
  then have "is_subscribe a"
    by (cases a) (simp_all add: same_subscription_def is_subscribe_def)
  then show ?thesis
    unfolding idle_race_def Let_def plain_filter Cons x
    by (simp add: plain_def of_at_def delay_def is_subscribe_def)
qed

lemma idle_race_other_key:
  "gs (subscriptionMsg p) \<noteq> k \<Longrightarrow> unsubscribes_for gs k (idle_race tf cfg gs t p rest) = []"
  by (auto simp: idle_race_cases unsubscribes_for_def split: list.splits)

lemma unsubscribes_merge2:
  "mset (unsubscribes_for gs k (merge2 xs ys)) =
   mset (unsubscribes_for gs k xs) + mset (unsubscribes_for gs k ys)"
  by (simp add: unsubscribes_for_def mset_merge2)

lemma no_subscribe_no_unsubscribe:
  "subscribes_for gs k acts = [] \<Longrightarrow> unsubscribes_for gs k (unsubscribeOnTimeout tf cfg gs acts) = []"
proof (induction acts)
  case Nil
  then show ?case by (simp add: unsubscribes_for_def)
next
  case (Cons x acts)
  obtain t a s where x: "x = (t, a, s)" by (cases x)
  from Cons.prems x have rest: "subscribes_for gs k acts = []" and a: "\<not> same_subscription gs k a"
    by (auto simp: subscribes_for_def split: if_splits)
  show ?case
  proof (cases a)
    case (Subscribe p)
    with a have "gs (subscriptionMsg p) \<noteq> k" by (auto simp: same_subscription_def)
    then have "mset (unsubscribes_for gs k (unsubscribeOnTimeout tf cfg gs (x # acts))) = {#}"
      using x Subscribe Cons.IH [OF rest]
      by (simp add: unsubscribes_merge2 idle_race_other_key)
    then show ?thesis by simp
  qed (use x Cons.IH [OF rest] in simp_all)
qed

lemma idle_chain:
  assumes "subscribes_for gs k acts = earlier @ [(t, Subscribe p, s)]"
    and "closely_spaced (subscriptionTTL cfg) (map fst (subscribes_for gs k acts))"
  shows "mset (unsubscribes_for gs k (unsubscribeOnTimeout tf cfg gs acts)) =
           {#(t + subscriptionTTL cfg, Unsubscribe p)#}"
  using assms
proof (induction acts arbitrary: earlier)
  case Nil
  then show ?case by (simp add: subscribes_for_def)
next
  case (Cons x acts)
  obtain t0 a0 s0 where x: "x = (t0, a0, s0)" by (cases x)
  show ?case
  proof (cases "same_subscription gs k a0")
    case False
    with x have same: "subscribes_for gs k (x # acts) = subscribes_for gs k acts"
      by (simp add: subscribes_for_def)
    have "mset (unsubscribes_for gs k (unsubscribeOnTimeout tf cfg gs (x # acts))) =
          mset (unsubscribes_for gs k (unsubscribeOnTimeout tf cfg gs acts))"
    proof (cases a0)
      case (Subscribe p0)
      with False have "gs (subscriptionMsg p0) \<noteq> k" by (auto simp: same_subscription_def)
      with x Subscribe show ?thesis
        by (simp add: unsubscribes_merge2 idle_race_other_key)
    qed (use x in simp_all)
    with Cons.IH [of earlier] Cons.prems same show ?thesis by simp
  next
    case True
    then obtain p0 where a0: "a0 = Subscribe p0" and k: "gs (subscriptionMsg p0) = k"
      by (cases a0) (auto simp: same_subscription_def)
    from True x have split: "subscribes_for gs k (x # acts) = x # subscribes_for gs k acts"
      by (simp add: subscribes_for_def)
    have out: "mset (unsubscribes_for gs k (unsubscribeOnTimeout tf cfg gs (x # acts))) =
        mset (unsubscribes_for gs k (idle_race tf cfg gs t0 p0 acts)) +
        mset (unsubscribes_for gs k (unsubscribeOnTimeout tf cfg gs acts))"
      using x a0 by (simp add: unsubscribes_merge2)
    show ?thesis
    proof (cases "subscribes_for gs k acts")
      case Nil
      with Cons.prems(1) split x a0 have last: "t0 = t" "p0 = p" by (cases earlier; simp)+
      from Nil k have "idle_race tf cfg gs t0 p0 acts = [(t0 + subscriptionTTL cfg, Unsubscribe p0)]"
        by (simp add: idle_race_cases)
      with k have u1: "unsubscribes_for gs k (idle_race tf cfg gs t0 p0 acts) =
          [(t0 + subscriptionTTL cfg, Unsubscribe p0)]"
        by (simp add: unsubscribes_for_def)
      have u2: "unsubscribes_for gs k (unsubscribeOnTimeout tf cfg gs acts) = []"
        by (rule no_subscribe_no_unsubscribe [OF Nil])
      from out u1 u2 last show ?thesis by simp
    next
      case (Cons y ys)
      obtain t1 a1 s1 where y: "y = (t1, a1, s1)" by (cases y)
      from Cons.prems(2) split Cons y x have near: "t1 < t0 + subscriptionTTL cfg"
        and spaced: "closely_spaced (subscriptionTTL cfg) (map fst (subscribes_for gs k acts))"
        by simp_all
      from Cons y k near have quiet: "idle_race tf cfg gs t0 p0 acts = []"
        by (simp add: idle_race_cases)
      from Cons.prems(1) split Cons obtain earlier' where
        "subscribes_for gs k acts = earlier' @ [(t, Subscribe p, s)]"
        by (cases earlier) auto
      from Cons.IH [OF this spaced] out quiet show ?thesis
        by (simp add: unsubscribes_for_def [of gs k "[]"])
    qed
  qed
qed

lemma first_of_sorted:
  assumes "sorted (map fst rest)" "filter P rest = y # ys" "x \<in> set rest" "P x"
  shows "fst y \<le> fst x"
proof -
  have "sorted (map fst (filter P rest))" using assms(1) by (rule sorted_filter)
  moreover have "x \<in> set (filter P rest)" using assms(3,4) by simp
  ultimately show ?thesis using assms(2) by auto
qed

lemma idle_race_reset:
  assumes "sorted (map fst rest)"
    and "\<exists>x \<in> set rest. same_subscription gs (gs (subscriptionMsg p)) (fst (snd x)) \<and>
           fst x < t + subscriptionTTL cfg"
  shows "idle_race tf cfg gs t p rest = []"
proof -
  from assms(2) obtain x where x: "x \<in> set rest"
    "same_subscription gs (gs (subscriptionMsg p)) (fst (snd x))" "fst x < t + subscriptionTTL cfg"
    by blast
  let ?P = "\<lambda>(t, a, state). same_subscription gs (gs (subscriptionMsg p)) a"
  from x(2) have px: "?P x" by (cases x) simp
  with x(1) have "filter ?P rest \<noteq> []" by (auto simp: filter_empty_conv)
  then obtain y ys where y: "filter ?P rest = y # ys" by (cases "filter ?P rest") auto
  from first_of_sorted [OF assms(1) y x(1) px] x(3) have "fst y < t + subscriptionTTL cfg" by simp
  with y show ?thesis
    by (cases y) (simp add: idle_race_cases subscribes_for_def)
qed

lemma idle_race_expiry:
  assumes "\<forall>x \<in> set rest. same_subscription gs (gs (subscriptionMsg p)) (fst (snd x)) \<longrightarrow>
             t + subscriptionTTL cfg < fst x"
  shows "idle_race tf cfg gs t p rest = [(t + subscriptionTTL cfg, Unsubscribe p)]"
proof (cases "subscribes_for gs (gs (subscriptionMsg p)) rest")
  case Nil
  then show ?thesis by (simp add: idle_race_cases)
next
  case (Cons y ys)
  then have "y \<in> set (subscribes_for gs (gs (subscriptionMsg p)) rest)" by simp
  then have "y \<in> set rest" "same_subscription gs (gs (subscriptionMsg p)) (fst (snd y))"
    by (auto simp: subscribes_for_def)
  with assms have "t + subscriptionTTL cfg < fst y" by blast
  with Cons show ?thesis by (cases y) (simp add: idle_race_cases)
qed

text \<open>
  C1. Every \<open>subscribe\<close> action starts a race of its own, merged into the output of
  \<open>unsubscribeOnTimeout$\<close>. On a trace whose times do not decrease: if a \<open>subscribe\<close>
  with the same derived key arrives strictly before the TTL has elapsed, the race
  emits nothing; if every later \<open>subscribe\<close> with that key arrives after the TTL
  (or none does), the race emits exactly one \<open>unsubscribe\<close>, with the payload of its
  \<open>subscribe\<close>, at the time of that \<open>subscribe\<close> plus the TTL. So when the
  \<open>subscribe\<close> actions for a key follow one another strictly within the TTL, the
  stream emits for that key one \<open>unsubscribe\<close> only, at the TTL after the last of them.
  This holds for either order of a timer and an action due at the same millisecond.
\<close>

theorem idle_unsubscribe_timer:
  assumes "sorted (map fst rest)"
  shows "unsubscribeOnTimeout tf cfg gs ((t, Subscribe p, s) # rest) =
           merge2 (idle_race tf cfg gs t p rest) (unsubscribeOnTimeout tf cfg gs rest) \<and>
         ((\<exists>x \<in> set rest. same_subscription gs (gs (subscriptionMsg p)) (fst (snd x)) \<and>
              fst x < t + subscriptionTTL cfg) \<longrightarrow>
            idle_race tf cfg gs t p rest = []) \<and>
         ((\<forall>x \<in> set rest. same_subscription gs (gs (subscriptionMsg p)) (fst (snd x)) \<longrightarrow>
              t + subscriptionTTL cfg < fst x) \<longrightarrow>
            idle_race tf cfg gs t p rest = [(t + subscriptionTTL cfg, Unsubscribe p)]) \<and>
         (subscribes_for gs k acts = earlier @ [(t', Subscribe p', s')] \<and>
          closely_spaced (subscriptionTTL cfg) (map fst (subscribes_for gs k acts)) \<longrightarrow>
            unsubscribes_for gs k (unsubscribeOnTimeout tf cfg gs acts) =
              [(t' + subscriptionTTL cfg, Unsubscribe p')])"
proof (intro conjI impI)
  show "unsubscribeOnTimeout tf cfg gs ((t, Subscribe p, s) # rest) =
          merge2 (idle_race tf cfg gs t p rest) (unsubscribeOnTimeout tf cfg gs rest)"
    by simp
next
  assume "\<exists>x \<in> set rest. same_subscription gs (gs (subscriptionMsg p)) (fst (snd x)) \<and>
            fst x < t + subscriptionTTL cfg"
  with assms show "idle_race tf cfg gs t p rest = []" by (rule idle_race_reset)
next
  assume "\<forall>x \<in> set rest. same_subscription gs (gs (subscriptionMsg p)) (fst (snd x)) \<longrightarrow>
            t + subscriptionTTL cfg < fst x"
  then show "idle_race tf cfg gs t p rest = [(t + subscriptionTTL cfg, Unsubscribe p)]"
    by (rule idle_race_expiry)
next
  assume "subscribes_for gs k acts = earlier @ [(t', Subscribe p', s')] \<and>
          closely_spaced (subscriptionTTL cfg) (map fst (subscribes_for gs k acts))"
  then have "mset (unsubscribes_for gs k (unsubscribeOnTimeout tf cfg gs acts)) =
               {#(t' + subscriptionTTL cfg, Unsubscribe p')#}"
    using idle_chain [of gs k acts earlier t' p' s' cfg tf] by blast
  then show "unsubscribes_for gs k (unsubscribeOnTimeout tf cfg gs acts) =
               [(t' + subscriptionTTL cfg, Unsubscribe p')]"
    by (simp only: mset_single_iff)
qed

theorem idle_unsubscribe_timer_witness:
  "sorted (map fst [(50 :: nat, Subscribe sample_subscription, state_connected)]) \<and>
   idle_race True sample_config sample_getSubsId 0 sample_subscription
      [(50, Subscribe sample_subscription, state_connected)] = [] \<and>
   idle_race True sample_config sample_getSubsId 50 sample_subscription [] =
      [(50 + subscriptionTTL sample_config, Unsubscribe sample_subscription)] \<and>
   unsubscribes_for sample_getSubsId ''ETH''
      (unsubscribeOnTimeout True sample_config sample_getSubsId
         [(0, Subscribe sample_subscription, state_connected),
          (50, Subscribe sample_subscription, state_connected)]) =
      [(50 + subscriptionTTL sample_config, Unsubscribe sample_subscription)] \<and>
   subscriptionTTL sample_config = 100"
proof -
  have key: "sample_getSubsId (subscriptionMsg sample_subscription) = ''ETH''"
    by (simp add: sample_getSubsId_def sample_subscription_def field_def member_def)
  have ttl: "subscriptionTTL sample_config = 100" by (simp add: sample_config_def)
  have s1: "sorted (map fst [(50 :: nat, Subscribe sample_subscription, state_connected)])"
    by simp
  have s0: "sorted (map fst ([] :: (action \<times> ws_state) stream))" by simp
  have reset: "\<exists>x \<in> set [(50 :: nat, Subscribe sample_subscription, state_connected)].
      same_subscription sample_getSubsId (sample_getSubsId (subscriptionMsg sample_subscription))
        (fst (snd x)) \<and> fst x < 0 + subscriptionTTL sample_config"
    by (simp add: same_subscription_def ttl)
  have none: "\<forall>x \<in> set ([] :: (action \<times> ws_state) stream).
      same_subscription sample_getSubsId (sample_getSubsId (subscriptionMsg sample_subscription))
        (fst (snd x)) \<longrightarrow> 50 + subscriptionTTL sample_config < fst x"
    by simp
  have chain: "subscribes_for sample_getSubsId ''ETH''
      [(0, Subscribe sample_subscription, state_connected),
       (50, Subscribe sample_subscription, state_connected)] =
      [(0, Subscribe sample_subscription, state_connected)] @
      [(50, Subscribe sample_subscription, state_connected)] \<and>
    closely_spaced (subscriptionTTL sample_config)
      (map fst (subscribes_for sample_getSubsId ''ETH''
         [(0, Subscribe sample_subscription, state_connected),
          (50, Subscribe sample_subscription, state_connected)]))"
    by (simp add: subscribes_for_def same_subscription_def key ttl)
  from idle_unsubscribe_timer [OF s1, of True sample_config sample_getSubsId 0 sample_subscription
      state_connected "''ETH''" "[(0, Subscribe sample_subscription, state_connected),
       (50, Subscribe sample_subscription, state_connected)]"
      "[(0, Subscribe sample_subscription, state_connected)]" 50 sample_subscription state_connected]
    reset chain
  have a: "idle_race True sample_config sample_getSubsId 0 sample_subscription
      [(50, Subscribe sample_subscription, state_connected)] = []"
    and c: "unsubscribes_for sample_getSubsId ''ETH''
      (unsubscribeOnTimeout True sample_config sample_getSubsId
         [(0, Subscribe sample_subscription, state_connected),
          (50, Subscribe sample_subscription, state_connected)]) =
      [(50 + subscriptionTTL sample_config, Unsubscribe sample_subscription)]"
    by blast+
  from idle_unsubscribe_timer [OF s0, of True sample_config sample_getSubsId 50 sample_subscription
      state_connected "''ETH''" "[]" "[]" 0 sample_subscription state_connected] none
  have b: "idle_race True sample_config sample_getSubsId 50 sample_subscription [] =
      [(50 + subscriptionTTL sample_config, Unsubscribe sample_subscription)]"
    by blast
  from s1 a b c ttl show ?thesis by blast
qed















subsection \<open>The cache writer\<close>

lemma lookup_input_truthy: "truthy (lookup_input state subsKey)"
  by (simp add: lookup_input_def js_or_def)



lemma withCache_body_resolves: "snd (withCache_body h cache a mp state) = Inr a"
  by (simp add: withCache_body_def Let_def split: sum.splits option.splits)

lemma withCache_body_never_warns:
  "Log Warn txt \<notin> set (fst (withCache_body h cache a mp state))"
  by (simp add: withCache_body_def Let_def lookup_input_truthy cache_error_def
      split: sum.splits option.splits)

lemma withCache_event_quiet: "snd (withCache_event h cache ev) = Inr []"
proof (cases ev)
  case (Dispatched a state)
  show ?thesis
  proof (cases a)
    case (MessageReceived mp)
    obtain effs r where b: "withCache_body h cache a mp state = (effs, r)"
      by (cases "withCache_body h cache a mp state")
    with withCache_body_resolves [of h cache a mp state] have "r = Inr a" by simp
    with b Dispatched MessageReceived show ?thesis by (simp add: withCache_event_def)
  qed (use Dispatched in \<open>simp_all add: withCache_event_def\<close>)
qed (simp_all add: withCache_event_def)

lemma withCache_run_quiet: "snd (withCache_run h cache trace) = Inr []"
proof (induction trace)
  case Nil
  then show ?case by simp
next
  case (Cons x trace)
  obtain t ev where x: "x = (t, ev)" by (cases x)
  obtain effs r where e: "withCache_event h cache ev = (effs, r)"
    by (cases "withCache_event h cache ev")
  with withCache_event_quiet [of h cache ev] have r: "r = Inr []" by simp
  obtain effs' r' where e': "withCache_run h cache trace = (effs', r')"
    by (cases "withCache_run h cache trace")
  with Cons have "r' = Inr []" by simp
  with x e r e' show ?case by simp
qed







text \<open>
  C7. The writer's promise always resolves (\<open>withCache_body_resolves\<close>) and the writer
  emits nothing (\<open>withCache_run_quiet\<close>), whatever \<open>toResponse\<close> and the cache do.
  But a lookup miss is not logged: \<open>input\<close> is \<open>... || {}\<close>, which is always truthy,
  so the warning under \<open>if (!input)\<close> can never be written
  (\<open>withCache_body_never_warns\<close>). For a message whose subscription key the state
  does not hold, the writer logs nothing and writes the response under the request
  built from the empty object.
\<close>

theorem lookup_miss_not_logged:
  "subscriptions state_connected ''ETH'' = None \<and>
   withCache_event sample_handler sample_cache
     (Dispatched (MessageReceived \<lparr>message = sample_price, subscriptionKey = ''ETH''\<rparr>)
        state_connected) =
     ([CacheWrite (Obj [(''data'', Obj [(''maxAge'', Num (- 1))]), (''debug'', Obj [(''ws'', Bool True)])])
         (Obj [(''result'', Num 100)])], Inr [])"
  by (simp add: withCache_event_def withCache_body_def sample_handler_def sample_price_def
       field_def member_def lookup_input_def js_or_def state_connected_def sample_cache_def
       wsResponse_def)

subsection \<open>The connection stream\<close>

text \<open>
  While no \<open>disconnected\<close> action for the connection is dispatched, \<open>ws$\<close> emits
  what the socket streams and the two timers emit, nothing more and nothing less. From
  such an action on it emits nothing that it would not have emitted without it.
\<close>

lemma set_merge2: "set (merge2 xs ys) = set xs \<union> set ys"
  by (induction xs ys rule: merge2.induct) auto

lemma mset_weave:
  "mset (weave tf pending steps) = mset pending + mset (concat (map emitted steps))"
  by (induction tf pending steps rule: weave.induct) simp_all

lemma mset_socket_steps:
  "mset (concat (map emitted (socket_steps gs R cp st trace))) =
     mset (concat (map (\<lambda>(t, ev). map (Pair t) (lifecycle cp ev)) trace)) +
     mset (mux_run gs R cp st trace)"
proof (induction trace arbitrary: st)
  case Nil
  show ?case by simp
next
  case (Cons x trace)
  obtain t ev where x: "x = (t, ev)" by (cases x)
  obtain outs logs st' where s: "mux_step gs R cp st ev = (outs, logs, st')"
    by (cases "mux_step gs R cp st ev")
  from Cons [of st'] x s show ?case by (simp add: emitted_def)
qed

lemma ws_without_disconnected:
  assumes "\<forall>x \<in> set trace. \<not> closes (connectionKey_of cp) (snd x)"
  shows "mset (ws tf gs R cp trace) =
           mset (concat (map (\<lambda>(t, ev). map (Pair t) (lifecycle cp ev)) trace)) +
           mset (mux_run gs R cp mux_init trace) +
           mset (unsubscribeOnTimeout tf (config cp) gs (dispatched trace)) +
           mset (unsubscribeOnNoResponse tf cp (dispatched trace))"
proof -
  let ?open = "\<lambda>(t, ev). \<not> closes (connectionKey_of cp) ev"
  from assms have all: "\<forall>x \<in> set trace. ?open x" by auto
  then have p: "takeWhile ?open trace = trace" "dropWhile ?open trace = []"
    by (simp_all add: takeWhile_eq_all_conv)
  show ?thesis
    unfolding ws_def Let_def p
    by (simp add: before_def mset_merge2 mset_weave mset_socket_steps)
qed

lemma ws_cut_at_disconnected:
  assumes "\<forall>x \<in> set pre. \<not> closes (connectionKey_of cp) (snd x)"
    and "closes (connectionKey_of cp) ev"
  shows "set (ws tf gs R cp (pre @ (t, ev) # post)) \<subseteq> set (ws tf gs R cp pre)"
proof -
  let ?open = "\<lambda>(t, ev). \<not> closes (connectionKey_of cp) ev"
  from assms(1) have all: "\<forall>x \<in> set pre. ?open x" by auto
  then have p: "takeWhile ?open pre = pre" "dropWhile ?open pre = []"
    by (simp_all add: takeWhile_eq_all_conv)
  from all assms(2) have q: "takeWhile ?open (pre @ (t, ev) # post) = pre"
    "dropWhile ?open (pre @ (t, ev) # post) = (t, ev) # post"
    by (simp_all add: takeWhile_append2 dropWhile_append2)
  have "set (weave tf xs steps) = set xs \<union> set (concat (map emitted steps))" for xs steps
    using mset_weave [of tf xs steps] by (metis set_mset_mset set_mset_union)
  then show ?thesis
    unfolding ws_def Let_def p q
    by (auto simp: before_def set_merge2)
qed

lemma unsubscribe_ends_logical_streams:
  assumes "\<not> ended st"
  shows "mux_step gs R cp st (Dispatched (Unsubscribe p) state) =
     (map Unsubscribed (filter (\<lambda>q. gs (subscriptionMsg p) = gs (subscriptionMsg q)) (inner st)),
      closing (wsHandler cp)
        (filter (\<lambda>q. gs (subscriptionMsg p) = gs (subscriptionMsg q)) (inner st)),
      st\<lparr>inner := filter (\<lambda>q. gs (subscriptionMsg p) \<noteq> gs (subscriptionMsg q)) (inner st)\<rparr>)"
  using assms by (simp add: mux_step_def ends_subscription_def)

text \<open>
  The idle timer inside the connection stream: when its \<open>unsubscribe\<close> comes back
  through the store, the logical stream ends, and \<open>ws$\<close> emits \<open>unsubscribe\<close> and
  then \<open>unsubscribed\<close>, whichever way ties go.
\<close>

lemma ws_unsubscribe_then_unsubscribed:
  "ws tf sample_getSubsId sample_reducer sample_connection
     [(1, Dispatched (Subscribe sample_subscription) (state_connecting 1)),
      (2, SocketOpen),
      (2, Dispatched (Connected sample_connection) state_connected),
      (101, Dispatched (Unsubscribe sample_subscription) state_connected),
      (101, Dispatched (Unsubscribed sample_subscription) state_connected)] =
     [(2, Connected sample_connection),
      (101, Unsubscribe sample_subscription),
      (101, Unsubscribed sample_subscription)]"
proof -
  have k: "connectionKey_of sample_connection = ''feed''"
    by (simp add: connectionKey_of_def sample_connection_def sample_config_def)
  have g: "sample_getSubsId (subscriptionMsg sample_subscription) = ''ETH''"
    by (simp add: sample_getSubsId_def sample_subscription_def field_def member_def)
  have c: "key (connectionInfo sample_subscription) = ''feed''"
    by (simp add: sample_subscription_def)
  have a: "\<not> isActiveSubscription (state_connecting 1) ''ETH''"
    by (simp add: isActiveSubscription_def state_connecting_def)
  have u: "subscriptionTTL (config sample_connection) = 100"
    by (simp add: sample_connection_def sample_config_def)
  show ?thesis
    by (cases tf)
      (simp_all add: ws_def closes_def mux_init_def mux_step_def lifecycle_def emitted_def
        echoes_def k g c a u ends_subscription_def dispatched_def before_def Let_def
        idle_race_def plain_def of_at_def delay_def is_subscribe_def same_subscription_def)
qed

text \<open>
  C4. An \<open>unsubscribe\<close> with the key of a logical stream ends it with an
  \<open>unsubscribed\<close> event (\<open>unsubscribe_ends_logical_streams\<close>). A \<open>disconnected\<close>
  event of the connection does not. In the sample session the multiplexer on its own
  would emit \<open>unsubscribed\<close> when \<open>disconnected\<close> is dispatched, but the connection
  stream \<open>ws$\<close> ends on that very action before the logical stream can react: it
  emits \<open>connected\<close>, \<open>subscribed\<close>, \<open>messageReceived\<close>, \<open>disconnected\<close> and no
  \<open>unsubscribed\<close>, whichever way ties between timers and actions go.
\<close>

theorem disconnected_drops_unsubscribed:
  "mux_run sample_getSubsId sample_reducer sample_connection mux_init sample_session =
     [(3, Subscribed sample_subscription),
      (3, MessageReceived \<lparr>message = sample_price, subscriptionKey = ''ETH''\<rparr>),
      (60, Unsubscribed sample_subscription)] \<and>
   ws True sample_getSubsId sample_reducer sample_connection sample_session =
     [(2, Connected sample_connection),
      (3, Subscribed sample_subscription),
      (3, MessageReceived \<lparr>message = sample_price, subscriptionKey = ''ETH''\<rparr>),
      (60, Disconnected sample_connection)] \<and>
   ws False sample_getSubsId sample_reducer sample_connection sample_session =
     [(2, Connected sample_connection),
      (3, Subscribed sample_subscription),
      (3, MessageReceived \<lparr>message = sample_price, subscriptionKey = ''ETH''\<rparr>),
      (60, Disconnected sample_connection)]"
proof -
  have k: "connectionKey_of sample_connection = ''feed''"
    by (simp add: connectionKey_of_def sample_connection_def sample_config_def)
  have g: "sample_getSubsId (subscriptionMsg sample_subscription) = ''ETH''"
    by (simp add: sample_getSubsId_def sample_subscription_def field_def member_def)
  have c: "key (connectionInfo sample_subscription) = ''feed''"
    by (simp add: sample_subscription_def)
  have f: "messageFilter (wsHandler sample_connection) sample_getSubsId ''ETH'' sample_price =
      ([], Inr True)"
    by (simp add: messageFilter_def sample_connection_def sample_handler_def sample_price_def
        sample_getSubsId_def field_def member_def)
  have a: "\<not> isActiveSubscription (state_connecting 1) ''ETH''"
    "\<not> isActiveSubscription state_connected ''ETH''"
    by (simp_all add: isActiveSubscription_def state_connecting_def state_connected_def)
  have u: "subscriptionUnresponsiveTTL (config sample_connection) = 200"
    "subscriptionTTL (config sample_connection) = 100"
    by (simp_all add: sample_connection_def sample_config_def)
  have m: "mux_run sample_getSubsId sample_reducer sample_connection mux_init sample_session =
     [(3, Subscribed sample_subscription),
      (3, MessageReceived \<lparr>message = sample_price, subscriptionKey = ''ETH''\<rparr>),
      (60, Unsubscribed sample_subscription)]"
    by (simp add: sample_session_def mux_init_def mux_step_def k g c f a on_message_def
        ends_subscription_def)
  have w: "ws tf sample_getSubsId sample_reducer sample_connection sample_session =
     [(2, Connected sample_connection),
      (3, Subscribed sample_subscription),
      (3, MessageReceived \<lparr>message = sample_price, subscriptionKey = ''ETH''\<rparr>),
      (60, Disconnected sample_connection)]" for tf
    by (cases tf)
      (simp_all add: ws_def sample_session_def closes_def mux_init_def mux_step_def lifecycle_def
        emitted_def echoes_def
        k g c f a u on_message_def ends_subscription_def dispatched_def before_def Let_def
        idle_race_def unresponsive_race_def plain_def of_at_def delay_def is_subscribe_def
        is_messageReceived_def same_subscription_def same_channel_def)
  from m w show ?thesis by simp
qed

end
